theory Spec2Isabelle
  imports Main "HOL-Library.Word" "HOL-Library.AList"
begin

unbundle bit_operations_syntax

section \<open>The Rich header parser of perichheaderparser.py\<close>

text \<open>
  The file being parsed is its byte content. Python integers are unbounded and are
  modelled as \<open>int\<close>; file positions and list indices are \<open>nat\<close>. The two
  exceptions the parser can raise are values of \<open>error\<close>: \<open>InvalidHeaderError\<close> is
  the class defined in the module (the specification's HeaderNotFound), \<open>StructError\<close>
  is the \<open>struct.error\<close> raised by \<open>struct.unpack\<close> when \<open>file_obj.read(4)\<close>
  returns fewer than four bytes (the specification's TruncatedInput).
\<close>

type_synonym byte = "8 word"

datatype error = InvalidHeaderError | StructError

text \<open>The value stored under each key of \<open>self.entries\<close>.\<close>

record entry =
  build_version :: int
  used_count :: int

text \<open>
  The attributes of a \<open>PERichHeaderParser\<close> object. \<open>entries\<close> is an
  \<open>OrderedDict\<close>: an association list in insertion order.
\<close>

record rich_header =
  filename :: string
  checksum_matches :: bool
  entries :: "(int \<times> entry) list"

subsection \<open>Reading the file\<close>

text \<open>\<open>file_obj.seek(pos); file_obj.read(n)\<close>: short at the end of the file.\<close>

definition file_read :: "byte list \<Rightarrow> nat \<Rightarrow> nat \<Rightarrow> byte list" where
  "file_read f pos n = take n (drop pos f)"

text \<open>\<open>struct.unpack('<I', bs)[0]\<close>: exactly four bytes, little-endian.\<close>

fun unpack_le32 :: "byte list \<Rightarrow> error + int" where
  "unpack_le32 [b0, b1, b2, b3] =
     Inr (uint b0 + uint b1 * 2 ^ 8 + uint b2 * 2 ^ 16 + uint b3 * 2 ^ 24)"
| "unpack_le32 bs = Inl StructError"

text \<open>\<open>_read_dword\<close> with the file position at \<open>pos\<close>.\<close>

definition read_dword :: "byte list \<Rightarrow> nat \<Rightarrow> error + int" where
  "read_dword f pos = unpack_le32 (file_read f pos 4)"

text \<open>
  \<open>data.find(pat)\<close>: the lowest index at which \<open>pat\<close> occurs, \<open>-1\<close> when it does
  not occur. \<open>find_from pat xs i\<close> searches the suffix \<open>xs\<close> that starts at index
  \<open>i\<close> of the data.
\<close>

fun find_from :: "byte list \<Rightarrow> byte list \<Rightarrow> nat \<Rightarrow> int" where
  "find_from pat [] i = (if pat = [] then int i else - 1)"
| "find_from pat (x # xs) i =
     (if take (length pat) (x # xs) = pat then int i else find_from pat xs (Suc i))"

definition find_bytes :: "byte list \<Rightarrow> byte list \<Rightarrow> int" where
  "find_bytes data pat = find_from pat data 0"

text \<open>\<open>b'Rich'\<close> and the little-endian value of \<open>b'DanS'\<close>.\<close>

definition rich_magic :: "byte list" where
  "rich_magic = [0x52, 0x69, 0x63, 0x68]"

definition dans_magic :: int where
  "dans_magic = 0x536E6144"

subsection \<open>Locating the header\<close>

text \<open>
  The brute-force loop \<open>for i in range(search_range // 0x4)\<close> after
  \<open>file_obj.seek(0x40)\<close>: the \<open>i\<close>-th read is at position \<open>0x40 + 4 * i\<close>. The
  result is \<open>start_of_header\<close>, which stays \<open>0\<close> when no word decodes to DanS.
\<close>

fun scan :: "byte list \<Rightarrow> int \<Rightarrow> nat list \<Rightarrow> error + nat" where
  "scan f header_checksum [] = Inr 0"
| "scan f header_checksum (i # rest) =
     (case read_dword f (0x40 + 4 * i) of
        Inl e \<Rightarrow> Inl e
      | Inr w \<Rightarrow>
          if w XOR header_checksum = dans_magic then Inr (0x40 + i * 4)
          else scan f header_checksum rest)"

text \<open>
  Lines 48 to 76 of \<open>_parse\<close>: \<open>lfa_new\<close>, \<open>rich_location\<close>,
  \<open>header_checksum\<close> and \<open>start_of_header\<close>.
\<close>

definition locate :: "byte list \<Rightarrow> error + (int \<times> int \<times> int \<times> nat)" where
  "locate f =
     (case read_dword f 0x3C of
        Inl e \<Rightarrow> Inl e
      | Inr w \<Rightarrow>
          let lfa_new = w AND 0xFFFF;
              data = file_read f 0 (nat lfa_new);
              rich_location = find_bytes data rich_magic
          in if rich_location = - 1 then Inl InvalidHeaderError
             else
               (case read_dword f (nat (rich_location + 0x4)) of
                  Inl e \<Rightarrow> Inl e
                | Inr header_checksum \<Rightarrow>
                    (case read_dword f 0x80 of
                       Inl e \<Rightarrow> Inl e
                     | Inr w80 \<Rightarrow>
                         (case (if w80 XOR header_checksum \<noteq> dans_magic
                                then scan f header_checksum
                                       [0..<nat ((lfa_new - 0x40) div 0x4)]
                                else Inr 0x80) of
                            Inl e \<Rightarrow> Inl e
                          | Inr start_of_header \<Rightarrow>
                              if start_of_header = 0 then Inl InvalidHeaderError
                              else Inr (lfa_new, rich_location, header_checksum,
                                        start_of_header)))))"

subsection \<open>The checksum over the bytes before the header\<close>

text \<open>
  Line 86, with Python's precedence (\<open>&\<close> binds tighter than \<open>|\<close>):
  \<open>(item << (i % 32)) | ((item >> (32 - (i % 32))) & 0xff)\<close>.
\<close>

definition rol_byte :: "int \<Rightarrow> nat \<Rightarrow> int" where
  "rol_byte item i =
     push_bit (i mod 32) item OR (drop_bit (32 - i mod 32) item AND 0xff)"

text \<open>The loop \<open>for i, item in enumerate(data)\<close> of lines 80 to 91.\<close>

fun checksum_bytes :: "(nat \<times> byte) list \<Rightarrow> int \<Rightarrow> int" where
  "checksum_bytes [] checksum = checksum"
| "checksum_bytes ((i, item) # rest) checksum =
     (if 0x3c \<le> i \<and> i < 0x40 then checksum_bytes rest checksum
      else checksum_bytes rest ((checksum + rol_byte (uint item) i) AND 0xFFFFFFFF))"

text \<open>
  Lines 78 to 91: \<open>data\<close> still holds the first \<open>lfa_new\<close> bytes of the file and
  is cut to \<open>data[:start_of_header]\<close>.
\<close>

definition header_bytes_checksum :: "byte list \<Rightarrow> int \<Rightarrow> nat \<Rightarrow> int" where
  "header_bytes_checksum f lfa_new start_of_header =
     (let data = file_read f 0 (nat lfa_new);
          data = take start_of_header data
      in checksum_bytes (enumerate 0 data) (int start_of_header))"

subsection \<open>The entries\<close>

text \<open>
  Line 105, with Python's precedence (\<open>%\<close> before the shifts, the shifts before
  \<open>|\<close>): \<open>(current_dword << (used_count % 32)) | (current_dword >> (32 - (used_count % 32)))\<close>.
\<close>

definition rol_dword :: "int \<Rightarrow> int \<Rightarrow> int" where
  "rol_dword current_dword uc =
     push_bit (nat (uc mod 32)) current_dword
       OR drop_bit (32 - nat (uc mod 32)) current_dword"

text \<open>
  The loop \<open>for i in range(total_elements)\<close> of lines 99 to 108: \<open>n\<close> iterations
  are left, the file position is \<open>pos\<close>. Assigning to a key of an \<open>OrderedDict\<close>
  replaces the value in place when the key is there and appends otherwise.
\<close>

fun parse_entries ::
  "byte list \<Rightarrow> int \<Rightarrow> nat \<Rightarrow> nat \<Rightarrow> int \<Rightarrow> (int \<times> entry) list
     \<Rightarrow> error + (int \<times> (int \<times> entry) list)" where
  "parse_entries f header_checksum 0 pos checksum es = Inr (checksum, es)"
| "parse_entries f header_checksum (Suc n) pos checksum es =
     (case read_dword f pos of
        Inl e \<Rightarrow> Inl e
      | Inr w1 \<Rightarrow>
          let current_dword = w1 XOR header_checksum;
              c_id = drop_bit 16 current_dword;
              bv = current_dword AND 0xFFFF
          in (case read_dword f (pos + 4) of
                Inl e \<Rightarrow> Inl e
              | Inr w2 \<Rightarrow>
                  let uc = w2 XOR header_checksum;
                      checksum = (checksum + rol_dword current_dword uc) AND 0xFFFFFFFF
                  in parse_entries f header_checksum n (pos + 8) checksum
                       (AList.update c_id \<lparr>build_version = bv, used_count = uc\<rparr> es)))"

subsection \<open>The constructor\<close>

text \<open>\<open>PERichHeaderParser(filename)\<close> on a file whose content is \<open>f\<close>.\<close>

definition parse :: "string \<Rightarrow> byte list \<Rightarrow> error + rich_header" where
  "parse fn f =
     (case locate f of
        Inl e \<Rightarrow> Inl e
      | Inr (lfa_new, rich_location, header_checksum, start_of_header) \<Rightarrow>
          let checksum = header_bytes_checksum f lfa_new start_of_header;
              total_elements = (rich_location - int start_of_header - 0x10) div 0x8
          in (case parse_entries f header_checksum (nat total_elements)
                     (start_of_header + 0x10) checksum [] of
                Inl e \<Rightarrow> Inl e
              | Inr (checksum, es) \<Rightarrow>
                  Inr \<lparr>filename = fn,
                       checksum_matches = (checksum = header_checksum),
                       entries = es\<rparr>))"

subsection \<open>Comparison\<close>

text \<open>\<open>__eq__\<close> between two parser objects.\<close>

definition header_eq :: "rich_header \<Rightarrow> rich_header \<Rightarrow> bool" where
  "header_eq self other =
     (if length (entries self) \<noteq> length (entries other) then False
      else if \<not> list_all (\<lambda>(k, v). map_of (entries other) k = Some v) (entries self)
        then False
      else checksum_matches self = checksum_matches other)"

subsection \<open>The notions of the specification\<close>

text \<open>
  The definitions below follow the words of the specification, not the code; the
  theorems compare them with the parser.

  The little-endian 32-bit value at a byte offset of the file.
\<close>

definition dword_at :: "byte list \<Rightarrow> nat \<Rightarrow> int" where
  "dword_at f pos =
     uint (f ! pos) + uint (f ! (pos + 1)) * 2 ^ 8 + uint (f ! (pos + 2)) * 2 ^ 16
       + uint (f ! (pos + 3)) * 2 ^ 24"

text \<open>Step 1: the value at offset \<open>0x3C\<close>, masked to its low 16 bits.\<close>

definition lfa_new_of :: "byte list \<Rightarrow> int" where
  "lfa_new_of f = dword_at f 0x3C AND 0xFFFF"

text \<open>The byte sequence \<open>pat\<close> occurs in \<open>data\<close> at index \<open>i\<close>.\<close>

definition occurs_at :: "byte list \<Rightarrow> byte list \<Rightarrow> nat \<Rightarrow> bool" where
  "occurs_at pat data i \<longleftrightarrow>
     i + length pat \<le> length data \<and> take (length pat) (drop i data) = pat"

text \<open>
  Step 5: the byte at index \<open>i\<close> is skipped when \<open>0x3C \<le> i < 0x40\<close>; otherwise
  its value, rotated left by \<open>i mod 32\<close> within a 32-bit word, is added modulo
  \<open>2 ^ 32\<close>.
\<close>

definition spec_byte_step :: "byte list \<Rightarrow> nat \<Rightarrow> 32 word \<Rightarrow> 32 word" where
  "spec_byte_step f i acc =
     (if 0x3C \<le> i \<and> i < 0x40 then acc
      else acc + word_rotl (i mod 32) (ucast (f ! i)))"

text \<open>
  The accumulator starts at \<open>header_start\<close> and takes the bytes at the indices
  below \<open>m\<close>, in file order.
\<close>

definition spec_bytes_checksum :: "byte list \<Rightarrow> nat \<Rightarrow> nat \<Rightarrow> 32 word" where
  "spec_bytes_checksum f header_start m =
     fold (spec_byte_step f) [0..<m] (word_of_nat header_start)"

text \<open>
  Step 6, for the \<open>i\<close>-th entry of the table that begins at offset \<open>table\<close>:
  the two decoded words, the fields taken from them, and the fold into the
  accumulator.
\<close>

definition id_word :: "byte list \<Rightarrow> int \<Rightarrow> nat \<Rightarrow> nat \<Rightarrow> int" where
  "id_word f stored_checksum table i = dword_at f (table + 8 * i) XOR stored_checksum"

definition count_word :: "byte list \<Rightarrow> int \<Rightarrow> nat \<Rightarrow> nat \<Rightarrow> int" where
  "count_word f stored_checksum table i =
     dword_at f (table + 8 * i + 4) XOR stored_checksum"

definition tool_id :: "byte list \<Rightarrow> int \<Rightarrow> nat \<Rightarrow> nat \<Rightarrow> int" where
  "tool_id f stored_checksum table i = drop_bit 16 (id_word f stored_checksum table i)"

definition spec_entry :: "byte list \<Rightarrow> int \<Rightarrow> nat \<Rightarrow> nat \<Rightarrow> entry" where
  "spec_entry f stored_checksum table i =
     \<lparr>build_version = id_word f stored_checksum table i AND 0xFFFF,
      used_count = count_word f stored_checksum table i\<rparr>"

definition spec_entry_step :: "byte list \<Rightarrow> int \<Rightarrow> nat \<Rightarrow> nat \<Rightarrow> 32 word \<Rightarrow> 32 word" where
  "spec_entry_step f stored_checksum table i acc =
     acc + word_rotl (nat (count_word f stored_checksum table i mod 32))
             (word_of_int (id_word f stored_checksum table i))"

text \<open>Total entry count: \<open>(rich_location - header_start - 0x10) / 8\<close>.\<close>

definition entry_count :: "int \<Rightarrow> nat \<Rightarrow> nat" where
  "entry_count rich_location header_start =
     nat ((rich_location - int header_start - 0x10) div 8)"

text \<open>
  The offsets offered to the search for DanS after the default \<open>0x80\<close> has
  failed: 4-byte aligned, from \<open>0x40\<close>, the whole word lying below \<open>lfa_new\<close>.
\<close>

definition scanned :: "int \<Rightarrow> nat \<Rightarrow> bool" where
  "scanned lfa_new off \<longleftrightarrow> 0x40 \<le> off \<and> off mod 4 = 0 \<and> int off + 4 \<le> lfa_new"

text \<open>The word at an offset decodes to DanS under the stored checksum.\<close>

definition decodes_dans :: "byte list \<Rightarrow> int \<Rightarrow> nat \<Rightarrow> bool" where
  "decodes_dans f stored_checksum off \<longleftrightarrow>
     off + 4 \<le> length f \<and> dword_at f off XOR stored_checksum = dans_magic"

text \<open>
  The entries mapping after the first \<open>n\<close> entries of the table: each entry is
  stored under its tool id, replacing an earlier entry with the same id.
\<close>

definition spec_entries :: "byte list \<Rightarrow> int \<Rightarrow> nat \<Rightarrow> nat \<Rightarrow> (int \<times> entry) list" where
  "spec_entries f stored_checksum table n =
     fold (\<lambda>i. AList.update (tool_id f stored_checksum table i)
                  (spec_entry f stored_checksum table i)) [0..<n] []"

text \<open>The keys of a keyed mapping in the order in which they were first inserted.\<close>

definition insertion_order :: "'a list \<Rightarrow> 'a list" where
  "insertion_order ks = fold (\<lambda>k seen. if k \<in> set seen then seen else seen @ [k]) ks []"

text \<open>
  Steps 5 to 7: the accumulator over the bytes below \<open>m\<close> and then over the
  \<open>n\<close> entries of the table at \<open>header_start + 0x10\<close>.
\<close>

definition spec_checksum :: "byte list \<Rightarrow> int \<Rightarrow> nat \<Rightarrow> nat \<Rightarrow> nat \<Rightarrow> 32 word" where
  "spec_checksum f stored_checksum header_start m n =
     fold (spec_entry_step f stored_checksum (header_start + 0x10)) [0..<n]
       (spec_bytes_checksum f header_start m)"

text \<open>
  Step 2: Rich is found at \<open>r\<close>, its first occurrence in the bytes below
  \<open>lfa_new\<close>.
\<close>

definition rich_at :: "byte list \<Rightarrow> int \<Rightarrow> nat \<Rightarrow> bool" where
  "rich_at f lfa_new r \<longleftrightarrow>
     occurs_at rich_magic (take (nat lfa_new) f) r
       \<and> (\<forall>j \<in> set [0..<r]. \<not> occurs_at rich_magic (take (nat lfa_new) f) j)"

text \<open>Step 4: the default offset and the scanned ones.\<close>

definition candidate :: "int \<Rightarrow> nat \<Rightarrow> bool" where
  "candidate lfa_new off \<longleftrightarrow> off = 0x80 \<or> scanned lfa_new off"

subsection \<open>Sample files\<close>

text \<open>
  A well-formed file of 0xB0 bytes: MZ, \<open>lfa_new = 0xB0\<close>, the header at 0x80 with
  the three entries (0x5D, 0x0FC3, 3), (1, 0, 10), (0x5D, 0x1234, 7), Rich at 0xA8
  and the checksum 0x35719999.
\<close>

definition file_good :: "byte list" where
  "file_good =
     [0x4D, 0x5A] @ replicate 58 0 @ [0xB0, 0, 0, 0] @ replicate 64 0 @
     [0xDD, 0xF8, 0x1F, 0x66, 0x99, 0x99, 0x71, 0x35,
      0x99, 0x99, 0x71, 0x35, 0x99, 0x99, 0x71, 0x35,
      0x5A, 0x96, 0x2C, 0x35, 0x9A, 0x99, 0x71, 0x35,
      0x99, 0x99, 0x70, 0x35, 0x93, 0x99, 0x71, 0x35,
      0xAD, 0x8B, 0x2C, 0x35, 0x9E, 0x99, 0x71, 0x35,
      0x52, 0x69, 0x63, 0x68, 0x99, 0x99, 0x71, 0x35]"

text \<open>
  A file of 0x84 bytes with \<open>lfa_new = 0x48\<close>: Rich at 0x40, the checksum 0x1190
  at 0x44, one non-zero byte at 0x50, and the word at 0x80 decoding to DanS.
\<close>

definition file_early_pe :: "byte list" where
  "file_early_pe =
     replicate 60 0 @ [0x48, 0, 0, 0] @ [0x52, 0x69, 0x63, 0x68, 0x90, 0x11, 0, 0] @
     replicate 8 0 @ [0x01] @ replicate 47 0 @ [0xD4, 0x70, 0x6E, 0x53]"

text \<open>
  A file of 0x84 bytes with \<open>lfa_new = 0x46\<close>: Rich at 0, the checksum 0 at 4,
  and DanS in clear at 0x44.
\<close>

definition file_unaligned :: "byte list" where
  "file_unaligned =
     [0x52, 0x69, 0x63, 0x68] @ replicate 56 0 @ [0x46, 0, 0, 0] @ replicate 4 0 @
     [0x44, 0x61, 0x6E, 0x53] @ replicate 60 0"

text \<open>
  A file of 0x48 bytes with \<open>lfa_new = 0x48\<close>: Rich at 0x40, the checksum 0 at
  0x44, and nothing at 0x80.
\<close>

definition file_short :: "byte list" where
  "file_short = replicate 60 0 @ [0x48, 0, 0, 0] @ [0x52, 0x69, 0x63, 0x68, 0, 0, 0, 0]"

text \<open>
  A file of 0x100 bytes with \<open>lfa_new = 0x100\<close>: Rich at 0x40, the checksum 0 at
  0x44, DanS in clear at 0x48, found by the scan.
\<close>

definition file_rich_first :: "byte list" where
  "file_rich_first =
     replicate 60 0 @ [0, 1, 0, 0] @ [0x52, 0x69, 0x63, 0x68, 0, 0, 0, 0] @
     [0x44, 0x61, 0x6E, 0x53] @ replicate 180 0"

section \<open>Reading words\<close>

lemma unpack_le32_short: "length bs \<noteq> 4 \<Longrightarrow> unpack_le32 bs = Inl StructError"
  by (induction bs rule: unpack_le32.induct) simp_all

lemma take4_drop:
  assumes "pos + 4 \<le> length f"
  shows "take 4 (drop pos f) = [f ! pos, f ! (pos + 1), f ! (pos + 2), f ! (pos + 3)]"
proof (rule nth_equalityI)
  show "length (take 4 (drop pos f)) = length [f ! pos, f ! (pos + 1), f ! (pos + 2), f ! (pos + 3)]"
    using assms by simp
next
  fix i assume "i < length (take 4 (drop pos f))"
  then have "i < 4" by simp
  then consider "i = 0" | "i = 1" | "i = 2" | "i = 3" by linarith
  then show "take 4 (drop pos f) ! i = [f ! pos, f ! (pos + 1), f ! (pos + 2), f ! (pos + 3)] ! i"
    using assms by cases simp_all
qed

lemma read_dword_eq:
  "read_dword f pos = (if pos + 4 \<le> length f then Inr (dword_at f pos) else Inl StructError)"
proof (cases "pos + 4 \<le> length f")
  case True
  then show ?thesis
    by (simp add: read_dword_def file_read_def take4_drop dword_at_def)
next
  case False
  then have "length (file_read f pos 4) \<noteq> 4"
    by (simp add: file_read_def)
  with False show ?thesis
    by (simp add: read_dword_def unpack_le32_short)
qed

lemma dword_at_range: "0 \<le> dword_at f pos" "dword_at f pos < 2 ^ 32"
proof -
  have b: "\<And>b::byte. 0 \<le> uint b \<and> uint b \<le> 255"
  proof -
    fix b :: byte
    have "uint b < 2 ^ 8" using uint_bounded [of b] by simp
    then show "0 \<le> uint b \<and> uint b \<le> 255" by simp
  qed
  show "0 \<le> dword_at f pos"
    unfolding dword_at_def by simp
  show "dword_at f pos < 2 ^ 32"
    unfolding dword_at_def
    using b [of "f ! pos"] b [of "f ! (pos + 1)"] b [of "f ! (pos + 2)"] b [of "f ! (pos + 3)"]
    by simp
qed

lemma xor_range32:
  assumes "0 \<le> (a::int)" "a < 2 ^ 32" "0 \<le> b" "b < 2 ^ 32"
  shows "0 \<le> a XOR b" "a XOR b < 2 ^ 32"
proof -
  show "0 \<le> a XOR b" using assms by simp
  show "a XOR b < 2 ^ 32" using assms by (intro XOR_upper) simp_all
qed

section \<open>Python's shifts and the 32-bit rotation\<close>

lemma mask32: "(x::int) AND 0xFFFFFFFF = uint (word_of_int x :: 32 word)"
proof -
  have "(0xFFFFFFFF::int) = mask 32" by (simp add: mask_eq_exp_minus_1)
  then show ?thesis by (simp add: uint_word_of_int_eq take_bit_eq_mask)
qed

lemma bit_int_bound32:
  assumes "0 \<le> x" "x < 2 ^ 32" "bit (x::int) j"
  shows "j < 32"
proof (rule ccontr)
  assume "\<not> j < 32"
  then have "32 \<le> j" by simp
  have "take_bit 32 x = x" using assms by (simp add: take_bit_int_eq_self)
  then have "bit (take_bit 32 x) j" using assms by simp
  then show False using \<open>32 \<le> j\<close> by (simp add: bit_take_bit_iff)
qed

lemma word_of_int_rol:
  assumes "0 \<le> x" "x < 2 ^ 32" "n < 32"
  shows "(word_of_int (push_bit n x OR drop_bit (32 - n) x) :: 32 word)
           = word_rotl n (word_of_int x)"
proof (rule bit_word_eqI)
  fix k assume "k < LENGTH(32)"
  then have k: "k < 32" by simp
  have bnd: "\<And>j. bit x j \<Longrightarrow> j < 32" using assms bit_int_bound32 by blast
  show "bit (word_of_int (push_bit n x OR drop_bit (32 - n) x) :: 32 word) k
          = bit (word_rotl n (word_of_int x :: 32 word)) k"
  proof (cases "n \<le> k")
    case True
    then have e: "(k + (32 - n)) mod 32 = k - n" using k assms
      by (simp add: mod_if)
    have "\<not> bit x (32 - n + k)" using True assms bnd by fastforce
    moreover have "k - n < 32" using k by simp
    ultimately show ?thesis using True k assms e
      by (simp add: bit_word_rotl_iff bit_word_of_int_iff bit_or_iff bit_push_bit_iff bit_drop_bit_eq)
  next
    case False
    then have e: "(k + (32 - n)) mod 32 = k + (32 - n)" using k assms by simp
    have "32 - n + k = k + (32 - n)" by simp
    moreover have "k + (32 - n) < 32" using False assms by simp
    ultimately show ?thesis using False k assms e
      by (simp add: bit_word_rotl_iff bit_word_of_int_iff bit_or_iff bit_push_bit_iff bit_drop_bit_eq)
  qed
qed

lemma rol_dword_word:
  assumes "0 \<le> cd" "cd < 2 ^ 32"
  shows "(word_of_int (rol_dword cd uc) :: 32 word)
           = word_rotl (nat (uc mod 32)) (word_of_int cd)"
  unfolding rol_dword_def
  by (rule word_of_int_rol) (use assms in auto)

lemma rol_byte_word:
  "(word_of_int (rol_byte (uint (b::byte)) i) :: 32 word) = word_rotl (i mod 32) (ucast b)"
proof -
  have b: "0 \<le> uint b" "uint b < 2 ^ 32"
    using uint_bounded [of b] by simp_all
  have "drop_bit (32 - i mod 32) (uint b) AND 0xff = drop_bit (32 - i mod 32) (uint b)"
  proof -
    let ?d = "drop_bit (32 - i mod 32) (uint b)"
    have "?d = uint b div 2 ^ (32 - i mod 32)" by (simp add: drop_bit_eq_div)
    moreover have "uint b div 2 ^ (32 - i mod 32) \<le> uint b div 1"
      by (rule zdiv_mono2) simp_all
    moreover have "uint b < 2 ^ 8" using uint_bounded [of b] by simp
    moreover have "0 \<le> uint b div 2 ^ (32 - i mod 32)"
      by (simp add: pos_imp_zdiv_nonneg_iff)
    ultimately have "0 \<le> ?d" "?d < 2 ^ 8" by simp_all
    then have "take_bit 8 ?d = ?d" by (simp add: take_bit_int_eq_self)
    moreover have "(0xff::int) = mask 8" by (simp add: mask_eq_exp_minus_1)
    ultimately show ?thesis by (simp add: take_bit_eq_mask)
  qed
  then show ?thesis
    unfolding rol_byte_def using word_of_int_rol [OF b, of "i mod 32"]
    by simp
qed

lemma add_mask32_word:
  "(word_of_int ((c + x) AND 0xFFFFFFFF) :: 32 word) = word_of_int c + word_of_int x"
  by (simp add: mask32)

lemma add_mask32_range: "0 \<le> (c + x) AND (0xFFFFFFFF::int)" "(c + x) AND 0xFFFFFFFF < (2::int) ^ 32"
proof -
  show "0 \<le> (c + x) AND (0xFFFFFFFF::int)" by simp
  have "uint (word_of_int (c + x) :: 32 word) < 2 ^ 32"
    using uint_bounded [of "word_of_int (c + x) :: 32 word"] by simp
  then show "(c + x) AND 0xFFFFFFFF < (2::int) ^ 32"
    by (simp only: mask32)
qed

section \<open>The byte loop\<close>

lemma checksum_bytes_range:
  "0 \<le> c \<Longrightarrow> c < 2 ^ 32 \<Longrightarrow>
     0 \<le> checksum_bytes ps c \<and> checksum_bytes ps c < 2 ^ 32"
proof (induction ps arbitrary: c)
  case Nil
  then show ?case by simp
next
  case (Cons p ps)
  obtain i item where p: "p = (i, item)" by (cases p)
  show ?case
  proof (cases "0x3c \<le> i \<and> i < 0x40")
    case True
    with Cons p show ?thesis by simp
  next
    case False
    have "0 \<le> checksum_bytes ps ((c + rol_byte (uint item) i) AND 0xFFFFFFFF)
        \<and> checksum_bytes ps ((c + rol_byte (uint item) i) AND 0xFFFFFFFF) < 2 ^ 32"
      using add_mask32_range [of c "rol_byte (uint item) i"]
      by (intro Cons.IH) simp_all
    with False p show ?thesis by auto
  qed
qed

lemma checksum_bytes_word:
  "(word_of_int (checksum_bytes ps c) :: 32 word)
     = fold (\<lambda>(i, b) acc. if 0x3C \<le> i \<and> i < 0x40 then acc
                            else acc + word_rotl (i mod 32) (ucast b))
         ps (word_of_int c)"
proof (induction ps c rule: checksum_bytes.induct)
  case (1 checksum)
  then show ?case by simp
next
  case (2 i item rest checksum)
  then show ?case
    by (simp add: add_mask32_word rol_byte_word)
qed

lemma enumerate_take_nth:
  "m \<le> length f \<Longrightarrow> enumerate 0 (take m f) = map (\<lambda>i. (i, f ! i)) [0..<m]"
  by (rule nth_equalityI) (simp_all add: nth_enumerate_eq)

lemma checksum_bytes_spec:
  assumes "m \<le> length f" "s < 2 ^ 32"
  shows "checksum_bytes (enumerate 0 (take m f)) (int s) = uint (spec_bytes_checksum f s m)"
proof -
  have r: "0 \<le> checksum_bytes (enumerate 0 (take m f)) (int s)
         \<and> checksum_bytes (enumerate 0 (take m f)) (int s) < 2 ^ 32"
    using assms(2) by (intro checksum_bytes_range) simp_all
  have "(word_of_int (checksum_bytes (enumerate 0 (take m f)) (int s)) :: 32 word)
          = spec_bytes_checksum f s m"
    unfolding checksum_bytes_word enumerate_take_nth [OF assms(1)] spec_bytes_checksum_def
    by (simp add: fold_map comp_def spec_byte_step_def [abs_def])
  moreover have "uint (word_of_int (checksum_bytes (enumerate 0 (take m f)) (int s)) :: 32 word)
          = take_bit 32 (checksum_bytes (enumerate 0 (take m f)) (int s))"
    by (simp add: uint_word_of_int_eq)
  ultimately have "uint (spec_bytes_checksum f s m)
          = take_bit 32 (checksum_bytes (enumerate 0 (take m f)) (int s))"
    by simp
  with r show ?thesis by (simp add: take_bit_int_eq_self)
qed

section \<open>Searching for a byte sequence\<close>

lemma occurs_at_Cons_Suc: "occurs_at pat (x # xs) (Suc i) = occurs_at pat xs i"
  by (simp add: occurs_at_def)

lemma occurs_at_0: "occurs_at pat xs 0 \<longleftrightarrow> take (length pat) xs = pat"
proof
  assume "occurs_at pat xs 0"
  then show "take (length pat) xs = pat" by (simp add: occurs_at_def)
next
  assume h: "take (length pat) xs = pat"
  then have "length (take (length pat) xs) = length pat" by simp
  then have "length pat \<le> length xs" by simp
  with h show "occurs_at pat xs 0" by (simp add: occurs_at_def)
qed

lemma occurs_at_Nil: "occurs_at pat [] i \<longleftrightarrow> i = 0 \<and> pat = []"
  by (auto simp: occurs_at_def)

lemma find_from_first:
  "occurs_at pat xs i \<Longrightarrow> (\<forall>j<i. \<not> occurs_at pat xs j) \<Longrightarrow> find_from pat xs k = int (k + i)"
proof (induction xs arbitrary: i k)
  case Nil
  then show ?case by (simp add: occurs_at_Nil)
next
  case (Cons x xs)
  show ?case
  proof (cases i)
    case 0
    with Cons.prems show ?thesis by (simp add: occurs_at_0)
  next
    case (Suc i')
    with Cons.prems have "\<not> occurs_at pat (x # xs) 0" by blast
    then have n0: "take (length pat) (x # xs) \<noteq> pat" by (simp add: occurs_at_0)
    have o: "occurs_at pat xs i'"
      using Cons.prems(1) Suc by (simp add: occurs_at_Cons_Suc)
    have "\<forall>j<i'. \<not> occurs_at pat xs j"
    proof (intro allI impI)
      fix j assume "j < i'"
      then have "Suc j < i" using Suc by simp
      with Cons.prems(2) have "\<not> occurs_at pat (x # xs) (Suc j)" by blast
      then show "\<not> occurs_at pat xs j" by (simp add: occurs_at_Cons_Suc)
    qed
    with o have "find_from pat xs (Suc k) = int (Suc k + i')" by (rule Cons.IH)
    with n0 Suc show ?thesis by simp
  qed
qed

lemma find_from_none: "find_from pat xs k = - 1 \<longleftrightarrow> (\<forall>i. \<not> occurs_at pat xs i)"
proof (induction xs arbitrary: k)
  case Nil
  then show ?case by (auto simp: occurs_at_Nil)
next
  case (Cons x xs)
  show ?case
  proof (cases "take (length pat) (x # xs) = pat")
    case True
    then have "occurs_at pat (x # xs) 0" by (simp add: occurs_at_0)
    with True show ?thesis by auto
  next
    case False
    then have n0: "\<not> occurs_at pat (x # xs) 0" by (simp add: occurs_at_0)
    have "(\<forall>i. \<not> occurs_at pat (x # xs) i) \<longleftrightarrow> (\<forall>i. \<not> occurs_at pat xs i)"
    proof
      assume a: "\<forall>i. \<not> occurs_at pat (x # xs) i"
      show "\<forall>i. \<not> occurs_at pat xs i"
      proof
        fix i from a have "\<not> occurs_at pat (x # xs) (Suc i)" by blast
        then show "\<not> occurs_at pat xs i" by (simp add: occurs_at_Cons_Suc)
      qed
    next
      assume a: "\<forall>i. \<not> occurs_at pat xs i"
      show "\<forall>i. \<not> occurs_at pat (x # xs) i"
      proof
        fix i show "\<not> occurs_at pat (x # xs) i"
          using n0 a by (cases i) (simp_all add: occurs_at_Cons_Suc)
      qed
    qed
    with False Cons.IH [of "Suc k"] show ?thesis by simp
  qed
qed

lemma find_bytes_none:
  "find_bytes data pat = - 1 \<longleftrightarrow> (\<forall>i. \<not> occurs_at pat data i)"
  by (simp add: find_bytes_def find_from_none)

lemma find_bytes_first:
  "find_bytes data pat = r \<and> r \<noteq> - 1 \<longleftrightarrow>
     0 \<le> r \<and> occurs_at pat data (nat r) \<and> (\<forall>j<nat r. \<not> occurs_at pat data j)"
proof
  assume h: "find_bytes data pat = r \<and> r \<noteq> - 1"
  then have "\<exists>i. occurs_at pat data i" by (auto simp: find_bytes_none)
  then obtain i where i: "occurs_at pat data i" "\<forall>j<i. \<not> occurs_at pat data j"
    using exists_least_iff [of "occurs_at pat data"] by auto
  then have "find_bytes data pat = int i"
    using find_from_first [of pat data i 0] by (simp add: find_bytes_def)
  with h have "nat r = i" "0 \<le> r" by auto
  with i show "0 \<le> r \<and> occurs_at pat data (nat r) \<and> (\<forall>j<nat r. \<not> occurs_at pat data j)"
    by simp
next
  assume h: "0 \<le> r \<and> occurs_at pat data (nat r) \<and> (\<forall>j<nat r. \<not> occurs_at pat data j)"
  then have "find_bytes data pat = int (nat r)"
    using find_from_first [of pat data "nat r" 0] by (simp add: find_bytes_def)
  with h show "find_bytes data pat = r \<and> r \<noteq> - 1" by simp
qed

section \<open>The scan for DanS\<close>

lemma scan_upt_step:
  assumes "i < k"
  shows "scan f hc [i..<k] =
     (if length f < 0x40 + 4 * i + 4 then Inl StructError
      else if decodes_dans f hc (0x40 + 4 * i) then Inr (0x40 + 4 * i)
      else scan f hc [Suc i..<k])"
  using assms by (simp add: upt_conv_Cons read_dword_eq decodes_dans_def)

lemma decodes_dans_readable: "decodes_dans f hc off \<Longrightarrow> off + 4 \<le> length f"
  by (simp add: decodes_dans_def)

lemma scan_found:
  "scan f hc [i..<k] = Inr s \<and> s \<noteq> 0 \<longleftrightarrow>
     (\<exists>j. i \<le> j \<and> j < k \<and> s = 0x40 + 4 * j \<and> decodes_dans f hc s
          \<and> (\<forall>m. i \<le> m \<and> m < j \<longrightarrow> \<not> decodes_dans f hc (0x40 + 4 * m)))"
proof (induction "k - i" arbitrary: i)
  case 0
  then show ?case by auto
next
  case (Suc n)
  then have ik: "i < k" and n: "n = k - Suc i" by simp_all
  let ?R = "\<lambda>i. \<exists>j. i \<le> j \<and> j < k \<and> s = 0x40 + 4 * j \<and> decodes_dans f hc s
          \<and> (\<forall>m. i \<le> m \<and> m < j \<longrightarrow> \<not> decodes_dans f hc (0x40 + 4 * m))"
  consider (short) "length f < 0x40 + 4 * i + 4"
    | (hit) "0x40 + 4 * i + 4 \<le> length f" "decodes_dans f hc (0x40 + 4 * i)"
    | (miss) "0x40 + 4 * i + 4 \<le> length f" "\<not> decodes_dans f hc (0x40 + 4 * i)"
    by linarith
  then show ?case
  proof cases
    case short
    have "\<not> ?R i"
    proof
      assume "?R i"
      then obtain j where j: "i \<le> j" "s = 0x40 + 4 * j" "decodes_dans f hc s" by blast
      from decodes_dans_readable [OF j(3)] have "s + 4 \<le> length f" .
      with j short show False by simp
    qed
    with short ik show ?thesis by (simp add: scan_upt_step)
  next
    case hit
    have "?R i \<longleftrightarrow> s = 0x40 + 4 * i"
    proof
      assume "?R i"
      then obtain j where j: "i \<le> j" "s = 0x40 + 4 * j"
        "\<forall>m. i \<le> m \<and> m < j \<longrightarrow> \<not> decodes_dans f hc (0x40 + 4 * m)" by blast
      have "\<not> i < j" using j(3) hit(2) by blast
      with j show "s = 0x40 + 4 * i" by simp
    next
      assume "s = 0x40 + 4 * i"
      with hit ik show "?R i" by (intro exI [of _ i]) auto
    qed
    with hit ik show ?thesis by (auto simp: scan_upt_step)
  next
    case miss
    have "?R i \<longleftrightarrow> ?R (Suc i)"
    proof
      assume "?R i"
      then obtain j where j: "i \<le> j" "j < k" "s = 0x40 + 4 * j" "decodes_dans f hc s"
        "\<forall>m. i \<le> m \<and> m < j \<longrightarrow> \<not> decodes_dans f hc (0x40 + 4 * m)" by blast
      have "j \<noteq> i" using j(3,4) miss(2) by auto
      with j(1) have "Suc i \<le> j" by simp
      with j show "?R (Suc i)" by (intro exI [of _ j]) simp
    next
      assume "?R (Suc i)"
      then obtain j where j: "Suc i \<le> j" "j < k" "s = 0x40 + 4 * j" "decodes_dans f hc s"
        "\<forall>m. Suc i \<le> m \<and> m < j \<longrightarrow> \<not> decodes_dans f hc (0x40 + 4 * m)" by blast
      have "\<forall>m. i \<le> m \<and> m < j \<longrightarrow> \<not> decodes_dans f hc (0x40 + 4 * m)"
      proof (intro allI impI)
        fix m assume m: "i \<le> m \<and> m < j"
        show "\<not> decodes_dans f hc (0x40 + 4 * m)"
        proof (cases "m = i")
          case True with miss(2) show ?thesis by simp
        next
          case False with m j(5) show ?thesis by simp
        qed
      qed
      with j show "?R i" by (intro exI [of _ j]) simp
    qed
    moreover have "scan f hc [Suc i..<k] = Inr s \<and> s \<noteq> 0 \<longleftrightarrow> ?R (Suc i)"
      using n by (rule Suc.hyps(1))
    ultimately show ?thesis using miss ik by (simp add: scan_upt_step)
  qed
qed

lemma scan_none:
  "scan f hc [i..<k] = Inr 0 \<longleftrightarrow>
     (i < k \<longrightarrow> 0x40 + 4 * k \<le> length f)
       \<and> (\<forall>m. i \<le> m \<and> m < k \<longrightarrow> \<not> decodes_dans f hc (0x40 + 4 * m))"
proof (induction "k - i" arbitrary: i)
  case 0
  then show ?case by auto
next
  case (Suc n)
  then have ik: "i < k" and n: "n = k - Suc i" by simp_all
  have ih: "scan f hc [Suc i..<k] = Inr 0 \<longleftrightarrow>
     (Suc i < k \<longrightarrow> 0x40 + 4 * k \<le> length f)
       \<and> (\<forall>m. Suc i \<le> m \<and> m < k \<longrightarrow> \<not> decodes_dans f hc (0x40 + 4 * m))"
    using n by (rule Suc.hyps(1))
  have split: "(\<forall>m. i \<le> m \<and> m < k \<longrightarrow> \<not> decodes_dans f hc (0x40 + 4 * m)) \<longleftrightarrow>
      \<not> decodes_dans f hc (0x40 + 4 * i)
        \<and> (\<forall>m. Suc i \<le> m \<and> m < k \<longrightarrow> \<not> decodes_dans f hc (0x40 + 4 * m))"
  proof
    assume a: "\<forall>m. i \<le> m \<and> m < k \<longrightarrow> \<not> decodes_dans f hc (0x40 + 4 * m)"
    then have "\<not> decodes_dans f hc (0x40 + 4 * i)" using ik by blast
    moreover have "\<forall>m. Suc i \<le> m \<and> m < k \<longrightarrow> \<not> decodes_dans f hc (0x40 + 4 * m)"
      using a by (simp add: Suc_le_eq less_imp_le)
    ultimately show "\<not> decodes_dans f hc (0x40 + 4 * i)
        \<and> (\<forall>m. Suc i \<le> m \<and> m < k \<longrightarrow> \<not> decodes_dans f hc (0x40 + 4 * m))"
      by blast
  next
    assume a: "\<not> decodes_dans f hc (0x40 + 4 * i)
        \<and> (\<forall>m. Suc i \<le> m \<and> m < k \<longrightarrow> \<not> decodes_dans f hc (0x40 + 4 * m))"
    show "\<forall>m. i \<le> m \<and> m < k \<longrightarrow> \<not> decodes_dans f hc (0x40 + 4 * m)"
    proof (intro allI impI)
      fix m assume "i \<le> m \<and> m < k"
      then consider "m = i" | "Suc i \<le> m \<and> m < k" by linarith
      then show "\<not> decodes_dans f hc (0x40 + 4 * m)" using a by cases simp_all
    qed
  qed
  consider (short) "length f < 0x40 + 4 * i + 4"
    | (hit) "0x40 + 4 * i + 4 \<le> length f" "decodes_dans f hc (0x40 + 4 * i)"
    | (miss) "0x40 + 4 * i + 4 \<le> length f" "\<not> decodes_dans f hc (0x40 + 4 * i)"
    by linarith
  then show ?case
  proof cases
    case short
    then have "\<not> 0x40 + 4 * k \<le> length f" using ik by simp
    with short ik show ?thesis by (simp add: scan_upt_step)
  next
    case hit
    with ik show ?thesis by (auto simp: scan_upt_step)
  next
    case miss
    have "(i < k \<longrightarrow> 0x40 + 4 * k \<le> length f) \<longleftrightarrow> (Suc i < k \<longrightarrow> 0x40 + 4 * k \<le> length f)"
      using miss(1) ik by (cases "Suc i < k") auto
    with miss ik ih split show ?thesis by (simp add: scan_upt_step)
  qed
qed

lemma scan_error: "scan f hc is = Inl e \<Longrightarrow> e = StructError"
  by (induction "is") (auto simp: read_dword_eq split: if_splits)

lemma scanned_iff:
  "scanned lfa off \<longleftrightarrow> (\<exists>j. j < nat ((lfa - 0x40) div 0x4) \<and> off = 0x40 + 4 * j)"
proof
  assume h: "scanned lfa off"
  then have "off = 0x40 + 4 * ((off - 0x40) div 4)"
    unfolding scanned_def by presburger
  moreover have "(off - 0x40) div 4 < nat ((lfa - 0x40) div 0x4)"
    using h unfolding scanned_def by (simp add: zless_nat_eq_int_zless) presburger
  ultimately show "\<exists>j. j < nat ((lfa - 0x40) div 0x4) \<and> off = 0x40 + 4 * j" by blast
next
  assume "\<exists>j. j < nat ((lfa - 0x40) div 0x4) \<and> off = 0x40 + 4 * j"
  then obtain j where j: "j < nat ((lfa - 0x40) div 0x4)" "off = 0x40 + 4 * j" by blast
  then have "int j < (lfa - 0x40) div 4" by simp
  then have "int j * 4 + 4 \<le> lfa - 0x40" by presburger
  with j(2) show "scanned lfa off" by (simp add: scanned_def)
qed

section \<open>Locating the header\<close>

lemma scan_found_scanned:
  "scan f hc [0..<nat ((lfa - 0x40) div 0x4)] = Inr s \<and> s \<noteq> 0 \<longleftrightarrow>
     scanned lfa s \<and> decodes_dans f hc s
       \<and> \<not> (\<exists>q. q < s \<and> scanned lfa q \<and> decodes_dans f hc q)"
proof -
  let ?k = "nat ((lfa - 0x40) div 0x4)"
  have "(\<exists>j. 0 \<le> j \<and> j < ?k \<and> s = 0x40 + 4 * j \<and> decodes_dans f hc s
          \<and> (\<forall>m. 0 \<le> m \<and> m < j \<longrightarrow> \<not> decodes_dans f hc (0x40 + 4 * m)))
      \<longleftrightarrow> scanned lfa s \<and> decodes_dans f hc s
       \<and> \<not> (\<exists>q. q < s \<and> scanned lfa q \<and> decodes_dans f hc q)"
  proof
    assume "\<exists>j. 0 \<le> j \<and> j < ?k \<and> s = 0x40 + 4 * j \<and> decodes_dans f hc s
          \<and> (\<forall>m. 0 \<le> m \<and> m < j \<longrightarrow> \<not> decodes_dans f hc (0x40 + 4 * m))"
    then obtain j where j: "j < ?k" "s = 0x40 + 4 * j" "decodes_dans f hc s"
      "\<forall>m. m < j \<longrightarrow> \<not> decodes_dans f hc (0x40 + 4 * m)" by auto
    have "scanned lfa s" using j(1,2) scanned_iff by blast
    moreover have "\<not> (\<exists>q. q < s \<and> scanned lfa q \<and> decodes_dans f hc q)"
    proof
      assume "\<exists>q. q < s \<and> scanned lfa q \<and> decodes_dans f hc q"
      then obtain off where off: "off < s" "scanned lfa off" "decodes_dans f hc off" by blast
      from off(2) obtain m where m: "off = 0x40 + 4 * m" using scanned_iff by blast
      with off(1) j(2) have "m < j" by simp
      with j(4) m off(3) show False by blast
    qed
    ultimately show "scanned lfa s \<and> decodes_dans f hc s
       \<and> \<not> (\<exists>q. q < s \<and> scanned lfa q \<and> decodes_dans f hc q)"
      using j(3) by blast
  next
    assume h: "scanned lfa s \<and> decodes_dans f hc s
       \<and> \<not> (\<exists>q. q < s \<and> scanned lfa q \<and> decodes_dans f hc q)"
    then obtain j where j: "j < ?k" "s = 0x40 + 4 * j" using scanned_iff by blast
    have "\<forall>m. 0 \<le> m \<and> m < j \<longrightarrow> \<not> decodes_dans f hc (0x40 + 4 * m)"
    proof (intro allI impI)
      fix m assume m: "0 \<le> m \<and> m < j"
      then have "m < ?k" using j(1) by simp
      then have "scanned lfa (0x40 + 4 * m)" using scanned_iff by blast
      moreover have "0x40 + 4 * m < s" using m j(2) by simp
      ultimately show "\<not> decodes_dans f hc (0x40 + 4 * m)" using h by blast
    qed
    with j h show "\<exists>j. 0 \<le> j \<and> j < ?k \<and> s = 0x40 + 4 * j \<and> decodes_dans f hc s
          \<and> (\<forall>m. 0 \<le> m \<and> m < j \<longrightarrow> \<not> decodes_dans f hc (0x40 + 4 * m))"
      by blast
  qed
  then show ?thesis by (simp only: scan_found [of f hc 0 ?k s])
qed

lemma scan_none_scanned:
  "scan f hc [0..<nat ((lfa - 0x40) div 0x4)] = Inr 0 \<Longrightarrow>
     \<not> (\<exists>off. scanned lfa off \<and> decodes_dans f hc off)"
proof
  let ?k = "nat ((lfa - 0x40) div 0x4)"
  assume s: "scan f hc [0..<?k] = Inr 0"
  assume "\<exists>off. scanned lfa off \<and> decodes_dans f hc off"
  then obtain off where off: "scanned lfa off" "decodes_dans f hc off" by blast
  from off(1) obtain m where m: "m < ?k" "off = 0x40 + 4 * m" using scanned_iff by blast
  from s have "\<forall>m. 0 \<le> m \<and> m < ?k \<longrightarrow> \<not> decodes_dans f hc (0x40 + 4 * m)"
    unfolding scan_none [of f hc 0 ?k] by blast
  with m off(2) show False by blast
qed

lemma rich_at_find:
  "find_bytes (file_read f 0 (nat lfa)) rich_magic = r \<and> r \<noteq> - 1 \<longleftrightarrow>
     0 \<le> r \<and> rich_at f lfa (nat r)"
  unfolding find_bytes_first rich_at_def file_read_def by auto

lemma rich_at_unique: "rich_at f lfa r1 \<Longrightarrow> rich_at f lfa r2 \<Longrightarrow> r1 = r2"
proof (rule ccontr)
  assume a: "rich_at f lfa r1" "rich_at f lfa r2" and "r1 \<noteq> r2"
  then consider "r1 < r2" | "r2 < r1" by linarith
  then show False
  proof cases
    case 1
    with a(2) have "\<not> occurs_at rich_magic (take (nat lfa) f) r1" by (simp add: rich_at_def)
    with a(1) show False by (simp add: rich_at_def)
  next
    case 2
    with a(1) have "\<not> occurs_at rich_magic (take (nat lfa) f) r2" by (simp add: rich_at_def)
    with a(2) show False by (simp add: rich_at_def)
  qed
qed

lemma scan_case_error:
  "(case scan f hc is of Inl e \<Rightarrow> Inl e | Inr s \<Rightarrow> g s)
     = (case scan f hc is of Inl e \<Rightarrow> Inl StructError | Inr s \<Rightarrow> g s)"
  by (cases "scan f hc is") (simp_all add: scan_error)

lemma locate_unfold:
  "locate f =
     (if length f < 0x40 then Inl StructError
      else let lfa_new = dword_at f 0x3C AND 0xFFFF;
               rich_location = find_bytes (file_read f 0 (nat lfa_new)) rich_magic
           in if rich_location = - 1 then Inl InvalidHeaderError
              else if length f < nat (rich_location + 4) + 4 then Inl StructError
              else if length f < 0x84 then Inl StructError
              else let header_checksum = dword_at f (nat (rich_location + 4))
                   in if decodes_dans f header_checksum 0x80
                      then Inr (lfa_new, rich_location, header_checksum, 0x80)
                      else (case scan f header_checksum [0..<nat ((lfa_new - 0x40) div 0x4)] of
                              Inl e \<Rightarrow> Inl StructError
                            | Inr s \<Rightarrow> if s = 0 then Inl InvalidHeaderError
                                       else Inr (lfa_new, rich_location, header_checksum, s)))"
proof (cases "length f < 0x40")
  case True
  then show ?thesis by (simp add: locate_def read_dword_eq)
next
  case l1: False
  let ?lfa = "dword_at f 0x3C AND 0xFFFF"
  let ?r = "find_bytes (file_read f 0 (nat ?lfa)) rich_magic"
  let ?hc = "dword_at f (nat (?r + 4))"
  show ?thesis
  proof (cases "?r = - 1")
    case True
    with l1 show ?thesis by (simp add: locate_def read_dword_eq Let_def)
  next
    case r: False
    show ?thesis
    proof (cases "length f < nat (?r + 4) + 4")
      case True
      with l1 r show ?thesis by (simp add: locate_def read_dword_eq Let_def)
    next
      case l2: False
      show ?thesis
      proof (cases "length f < 0x84")
        case True
        with l1 r l2 show ?thesis by (simp add: locate_def read_dword_eq Let_def)
      next
        case l3: False
        show ?thesis
        proof (cases "decodes_dans f ?hc 0x80")
          case True
          then have "dword_at f 0x80 XOR ?hc = dans_magic" by (simp add: decodes_dans_def)
          with True l1 r l2 l3 show ?thesis
            by (simp add: locate_def read_dword_eq Let_def)
        next
          case False
          with l3 have "dword_at f 0x80 XOR ?hc \<noteq> dans_magic"
            by (simp add: decodes_dans_def)
          with False l1 r l2 l3 show ?thesis
            by (simp add: locate_def read_dword_eq Let_def scan_case_error)
        qed
      qed
    qed
  qed
qed

lemma locate_Inr_iff:
  "locate f = Inr (lfa, r, hc, s) \<longleftrightarrow>
     0x84 \<le> length f \<and> lfa = dword_at f 0x3C AND 0xFFFF
       \<and> 0 \<le> r \<and> rich_at f lfa (nat r)
       \<and> nat r + 8 \<le> length f \<and> hc = dword_at f (nat r + 4)
       \<and> (if decodes_dans f hc 0x80 then s = 0x80
          else scanned lfa s \<and> decodes_dans f hc s
                 \<and> \<not> (\<exists>q. q < s \<and> scanned lfa q \<and> decodes_dans f hc q))"
  (is "?L \<longleftrightarrow> ?R")
proof
  assume l: ?L
  let ?lfa = "dword_at f 0x3C AND 0xFFFF"
  let ?r = "find_bytes (file_read f 0 (nat ?lfa)) rich_magic"
  let ?hc = "dword_at f (nat (?r + 4))"
  from l have len: "\<not> length f < 0x40" "?r \<noteq> - 1" "\<not> length f < nat (?r + 4) + 4"
    "\<not> length f < 0x84"
    unfolding locate_unfold Let_def by (auto split: if_splits)
  from l len have eqs: "lfa = ?lfa" "r = ?r" "hc = ?hc"
    unfolding locate_unfold Let_def by (auto split: if_splits sum.splits)
  have r0: "0 \<le> r" "rich_at f lfa (nat r)"
    using rich_at_find [of f lfa r] len(2) eqs by auto
  then have n: "nat (r + 4) = nat r + 4" by simp
  have tail: "if decodes_dans f hc 0x80 then s = 0x80
          else scanned lfa s \<and> decodes_dans f hc s
                 \<and> \<not> (\<exists>q. q < s \<and> scanned lfa q \<and> decodes_dans f hc q)"
  proof (cases "decodes_dans f hc 0x80")
    case True
    with l len eqs show ?thesis
      unfolding locate_unfold Let_def by (auto split: if_splits)
  next
    case False
    with l len eqs have "scan f hc [0..<nat ((lfa - 0x40) div 0x4)] = Inr s \<and> s \<noteq> 0"
      unfolding locate_unfold Let_def by (auto split: if_splits sum.splits)
    with False show ?thesis by (simp only: scan_found_scanned) simp
  qed
  have l84: "0x84 \<le> length f" using len(4) by simp
  have "\<not> length f < nat (r + 4) + 4" unfolding eqs(2) by (rule len(3))
  with n have lr: "nat r + 8 \<le> length f" by simp
  have "hc = dword_at f (nat (r + 4))" unfolding eqs(2) by (rule eqs(3))
  with n have hc: "hc = dword_at f (nat r + 4)" by simp
  show ?R by (intro conjI) (fact l84 eqs(1) r0 lr hc tail)+
next
  assume r: ?R
  from r have l84: "0x84 \<le> length f" by (elim conjE)
  from r have lr: "nat r + 8 \<le> length f" by (elim conjE)
  note len = l84 lr
  from r have lfa: "lfa = dword_at f 0x3C AND 0xFFFF" by (elim conjE)
  from r have hc: "hc = dword_at f (nat r + 4)" by (elim conjE)
  from r have r00: "0 \<le> r" by (elim conjE)
  from r have r01: "rich_at f lfa (nat r)" by (elim conjE)
  note r0 = r00 r01
  from r have tail: "if decodes_dans f hc 0x80 then s = 0x80
          else scanned lfa s \<and> decodes_dans f hc s
                 \<and> \<not> (\<exists>q. q < s \<and> scanned lfa q \<and> decodes_dans f hc q)"
    by (elim conjE)
  have f: "find_bytes (file_read f 0 (nat lfa)) rich_magic = r" "r \<noteq> - 1"
    using rich_at_find [of f lfa r] r0 by auto
  have n: "nat (r + 4) = nat r + 4" using r0 by simp
  have pre: "locate f =
      (if decodes_dans f hc 0x80 then Inr (lfa, r, hc, 0x80)
       else (case scan f hc [0..<nat ((lfa - 0x40) div 0x4)] of
               Inl e \<Rightarrow> Inl StructError
             | Inr s \<Rightarrow> if s = 0 then Inl InvalidHeaderError else Inr (lfa, r, hc, s)))"
    unfolding locate_unfold Let_def lfa [symmetric] f(1) n hc [symmetric]
    using len f(2) by simp
  show ?L
  proof (cases "decodes_dans f hc 0x80")
    case True
    with tail pre show ?thesis by simp
  next
    case False
    with tail have "scan f hc [0..<nat ((lfa - 0x40) div 0x4)] = Inr s \<and> s \<noteq> 0"
      by (simp only: scan_found_scanned) simp
    with False pre show ?thesis by simp
  qed
qed

lemma and_ffff_range: "0 \<le> (w::int) \<Longrightarrow> 0 \<le> w AND 0xFFFF \<and> w AND 0xFFFF \<le> 0xFFFF"
  using AND_upper2 [of "0xFFFF" w] by simp

lemma occurs_at_bound: "occurs_at pat data i \<Longrightarrow> i + length pat \<le> length data"
  by (simp add: occurs_at_def)

lemma locate_facts:
  assumes "locate f = Inr (lfa, r, hc, s)"
  shows "0 \<le> lfa" "lfa \<le> 0xFFFF" "0 \<le> r" "nat r + 4 \<le> nat lfa" "nat r + 8 \<le> length f"
    "0 \<le> hc" "hc < 2 ^ 32" "s + 4 \<le> length f" "s = 0x80 \<or> int s + 4 \<le> lfa" "0x40 \<le> s"
    "hc = dword_at f (nat r + 4)"
proof -
  note h = assms [unfolded locate_Inr_iff]
  from h have lfa: "lfa = dword_at f 0x3C AND 0xFFFF" by blast
  show "0 \<le> lfa" "lfa \<le> 0xFFFF"
    using and_ffff_range [OF dword_at_range(1) [of f "0x3C"]] lfa by simp_all
  show "0 \<le> r" "nat r + 8 \<le> length f" "hc = dword_at f (nat r + 4)" using h by blast+
  then show "0 \<le> hc" "hc < 2 ^ 32" using dword_at_range [of f "nat r + 4"] by simp_all
  from h have "rich_at f lfa (nat r)" by blast
  then have "occurs_at rich_magic (take (nat lfa) f) (nat r)" by (simp add: rich_at_def)
  from occurs_at_bound [OF this] show "nat r + 4 \<le> nat lfa"
    by (simp add: rich_magic_def)
  from h have "if decodes_dans f hc 0x80 then s = 0x80
          else scanned lfa s \<and> decodes_dans f hc s
                 \<and> \<not> (\<exists>q. q < s \<and> scanned lfa q \<and> decodes_dans f hc q)"
    by (elim conjE)
  then have t: "if decodes_dans f hc 0x80 then s = 0x80
          else scanned lfa s \<and> decodes_dans f hc s"
    by (cases "decodes_dans f hc 0x80") simp_all
  have "decodes_dans f hc s" using t by (cases "decodes_dans f hc 0x80") simp_all
  then show "s + 4 \<le> length f" by (rule decodes_dans_readable)
  show "s = 0x80 \<or> int s + 4 \<le> lfa" using t
    by (cases "decodes_dans f hc 0x80") (simp_all add: scanned_def)
  show "0x40 \<le> s" using t
    by (cases "decodes_dans f hc 0x80") (simp_all add: scanned_def)
qed

section \<open>The entry loop\<close>

lemma fold_upt_shift: "fold g [0..<Suc n] a = fold (\<lambda>i. g (Suc i)) [0..<n] (g 0 a)"
proof -
  have "[0..<Suc n] = 0 # map Suc [0..<n]"
    by (simp add: upt_conv_Cons map_Suc_upt del: upt_Suc)
  then show ?thesis by (simp add: fold_map comp_def del: upt_Suc)
qed

lemma id_word_shift: "id_word f hc (pos + 8) i = id_word f hc pos (Suc i)"
  by (simp add: id_word_def ac_simps)

lemma count_word_shift: "count_word f hc (pos + 8) i = count_word f hc pos (Suc i)"
  by (simp add: count_word_def ac_simps)

lemma tool_id_shift: "tool_id f hc (pos + 8) i = tool_id f hc pos (Suc i)"
  by (simp add: tool_id_def id_word_shift)

lemma spec_entry_shift: "spec_entry f hc (pos + 8) i = spec_entry f hc pos (Suc i)"
  by (simp add: spec_entry_def id_word_shift count_word_shift)

lemma spec_entry_step_shift:
  "spec_entry_step f hc (pos + 8) i = spec_entry_step f hc pos (Suc i)"
  by (simp add: spec_entry_step_def [abs_def] id_word_shift count_word_shift)

lemma parse_entries_Suc:
  assumes "pos + 8 \<le> length f"
  shows "parse_entries f hc (Suc n) pos c es =
           parse_entries f hc n (pos + 8)
             ((c + rol_dword (id_word f hc pos 0) (count_word f hc pos 0)) AND 0xFFFFFFFF)
             (AList.update (tool_id f hc pos 0) (spec_entry f hc pos 0) es)"
  using assms
  by (simp add: read_dword_eq Let_def id_word_def count_word_def tool_id_def spec_entry_def)

lemma id_word_range:
  assumes "0 \<le> hc" "hc < 2 ^ 32"
  shows "0 \<le> id_word f hc pos i" "id_word f hc pos i < 2 ^ 32"
  unfolding id_word_def
  using xor_range32 [OF dword_at_range [of f "pos + 8 * i"] assms] by simp_all

lemma entry_step_word:
  assumes "0 \<le> hc" "hc < 2 ^ 32"
  shows "(word_of_int ((c + rol_dword (id_word f hc pos 0) (count_word f hc pos 0))
            AND 0xFFFFFFFF) :: 32 word)
           = spec_entry_step f hc pos 0 (word_of_int c)"
  unfolding add_mask32_word spec_entry_step_def
  using rol_dword_word [OF id_word_range [OF assms, of f pos 0]] by simp

lemma uint_word_of_int_self:
  "0 \<le> c \<Longrightarrow> c < 2 ^ 32 \<Longrightarrow> uint (word_of_int c :: 32 word) = c"
  by (simp add: uint_word_of_int_eq take_bit_int_eq_self)

lemma parse_entries_ok:
  assumes "0 \<le> hc" "hc < 2 ^ 32"
  shows "n = 0 \<or> pos + 8 * n \<le> length f \<Longrightarrow> 0 \<le> c \<Longrightarrow> c < 2 ^ 32 \<Longrightarrow>
     parse_entries f hc n pos c es =
       Inr (uint (fold (spec_entry_step f hc pos) [0..<n] (word_of_int c)),
            fold (\<lambda>i. AList.update (tool_id f hc pos i) (spec_entry f hc pos i)) [0..<n] es)"
proof (induction n arbitrary: pos c es)
  case 0
  then show ?case by (simp add: uint_word_of_int_self)
next
  case (Suc n)
  let ?c1 = "(c + rol_dword (id_word f hc pos 0) (count_word f hc pos 0)) AND 0xFFFFFFFF"
  let ?es1 = "AList.update (tool_id f hc pos 0) (spec_entry f hc pos 0) es"
  from Suc.prems(1) have len: "pos + 8 \<le> length f" "n = 0 \<or> pos + 8 + 8 * n \<le> length f"
    by auto
  have c1: "0 \<le> ?c1" "?c1 < 2 ^ 32"
    using add_mask32_range [of c "rol_dword (id_word f hc pos 0) (count_word f hc pos 0)"]
    by simp_all
  have "parse_entries f hc (Suc n) pos c es = parse_entries f hc n (pos + 8) ?c1 ?es1"
    by (rule parse_entries_Suc [OF len(1)])
  also have "\<dots> = Inr (uint (fold (spec_entry_step f hc (pos + 8)) [0..<n] (word_of_int ?c1)),
            fold (\<lambda>i. AList.update (tool_id f hc (pos + 8) i) (spec_entry f hc (pos + 8) i))
              [0..<n] ?es1)"
    by (rule Suc.IH [OF len(2) c1])
  also have "\<dots> = Inr (uint (fold (spec_entry_step f hc pos) [0..<Suc n] (word_of_int c)),
            fold (\<lambda>i. AList.update (tool_id f hc pos i) (spec_entry f hc pos i))
              [0..<Suc n] es)"
    unfolding fold_upt_shift entry_step_word [OF assms] spec_entry_step_shift
      tool_id_shift spec_entry_shift ..
  finally show ?case .
qed

lemma parse_entries_short:
  "0 < n \<Longrightarrow> length f < pos + 8 * n \<Longrightarrow> parse_entries f hc n pos c es = Inl StructError"
proof (induction n arbitrary: pos c es)
  case 0
  then show ?case by simp
next
  case (Suc n)
  show ?case
  proof (cases "pos + 8 \<le> length f")
    case True
    with Suc.prems have "0 < n" "length f < pos + 8 + 8 * n" by auto
    then have "parse_entries f hc n (pos + 8)
             ((c + rol_dword (id_word f hc pos 0) (count_word f hc pos 0)) AND 0xFFFFFFFF)
             (AList.update (tool_id f hc pos 0) (spec_entry f hc pos 0) es) = Inl StructError"
      by (rule Suc.IH)
    then show ?thesis by (simp only: parse_entries_Suc [OF True])
  next
    case False
    then show ?thesis
      by (cases "pos + 4 \<le> length f") (simp_all add: read_dword_eq Let_def)
  qed
qed

section \<open>The whole parse\<close>

lemma header_bytes_checksum_spec:
  assumes "locate f = Inr (lfa, r, hc, s)"
  shows "header_bytes_checksum f lfa s = uint (spec_bytes_checksum f s (min s (nat lfa)))"
proof -
  note lf = locate_facts [OF assms]
  have m: "min s (nat lfa) \<le> length f" using lf(8) by simp
  have s: "s < 2 ^ 32" using lf(9) lf(2) by auto
  have "take s (file_read f 0 (nat lfa)) = take (min s (nat lfa)) f"
    by (simp add: file_read_def)
  then show ?thesis
    unfolding header_bytes_checksum_def Let_def
    using checksum_bytes_spec [OF m s] by simp
qed

lemma entries_in_file:
  assumes "locate f = Inr (lfa, r, hc, s)"
  shows "entry_count r s = 0 \<or> s + 0x10 + 8 * entry_count r s \<le> length f"
proof -
  note lf = locate_facts [OF assms]
  show ?thesis
  proof (cases "entry_count r s = 0")
    case True
    then show ?thesis by simp
  next
    case False
    then have "0 < (r - int s - 0x10) div 8" by (simp add: entry_count_def)
    then have "int (entry_count r s) * 8 \<le> r - int s - 0x10"
      unfolding entry_count_def by simp
    with lf(3,5) show ?thesis by linarith
  qed
qed

lemma parse_eq:
  assumes "locate f = Inr (lfa, r, hc, s)"
  shows "parse fn f =
     Inr \<lparr>filename = fn,
          checksum_matches =
            (uint (spec_checksum f hc s (min s (nat lfa)) (entry_count r s)) = hc),
          entries = spec_entries f hc (s + 0x10) (entry_count r s)\<rparr>"
proof -
  note lf = locate_facts [OF assms]
  let ?c = "uint (spec_bytes_checksum f s (min s (nat lfa)))"
  have c: "0 \<le> ?c" "?c < 2 ^ 32"
    using uint_bounded [of "spec_bytes_checksum f s (min s (nat lfa))"] by simp_all
  have "parse_entries f hc (entry_count r s) (s + 0x10) ?c [] =
       Inr (uint (fold (spec_entry_step f hc (s + 0x10)) [0..<entry_count r s] (word_of_int ?c)),
            fold (\<lambda>i. AList.update (tool_id f hc (s + 0x10) i) (spec_entry f hc (s + 0x10) i))
              [0..<entry_count r s] [])"
    by (rule parse_entries_ok [OF lf(6,7) entries_in_file [OF assms] c])
  then have "parse_entries f hc (entry_count r s) (s + 0x10) ?c [] =
       Inr (uint (spec_checksum f hc s (min s (nat lfa)) (entry_count r s)),
            spec_entries f hc (s + 0x10) (entry_count r s))"
    by (simp add: spec_checksum_def spec_entries_def)
  then show ?thesis
    by (simp add: parse_def assms header_bytes_checksum_spec [OF assms] Let_def
          entry_count_def)
qed

lemma parse_error:
  "parse fn f = Inl e \<longleftrightarrow> locate f = Inl e"
proof (cases "locate f")
  case (Inl a)
  then show ?thesis by (simp add: parse_def)
next
  case (Inr t)
  obtain lfa r hc s where "t = (lfa, r, hc, s)" by (cases t)
  with Inr show ?thesis using parse_eq [of f lfa r hc s fn] by simp
qed

section \<open>The claims\<close>

subsection \<open>The checksum over the bytes before the header\<close>

text \<open>
  Claim C1, as stated, fails: the accumulator is said to take every byte at an
  index below \<open>header_start\<close>. In \<open>file_early_pe\<close> the header is found at the
  default offset 0x80 while \<open>lfa_new\<close> is 0x48; the parser accumulates only the
  0x48 bytes it holds in \<open>data\<close>, reaches 0x1190 and reports a matching checksum,
  whereas the accumulation over all 0x80 bytes gives 0x11190.
\<close>

theorem bytes_checksum_counterexample:
  "locate file_early_pe = Inr (0x48, 0x40, 0x1190, 0x80)
     \<and> header_bytes_checksum file_early_pe 0x48 0x80 = 0x1190
     \<and> spec_bytes_checksum file_early_pe 0x80 0x80 = 0x11190
     \<and> header_bytes_checksum file_early_pe 0x48 0x80
         \<noteq> uint (spec_bytes_checksum file_early_pe 0x80 0x80)
     \<and> parse ''a.exe'' file_early_pe
         = Inr \<lparr>filename = ''a.exe'', checksum_matches = True, entries = []\<rparr>"
  by code_simp

text \<open>
  Claim C1, amended: whenever the header start is located, the accumulator starts at
  \<open>header_start\<close> and takes, in file order, the bytes at the indices below
  \<open>min header_start lfa_new\<close>: a byte at an index in \<open>[0x3C, 0x40)\<close> leaves it
  unchanged, any other byte adds its 32-bit rotation to the left by \<open>i mod 32\<close>,
  modulo \<open>2 ^ 32\<close>. A header start found by the scan lies below \<open>lfa_new\<close>, so
  the bound is \<open>header_start\<close> itself unless the header is at the default 0x80.
\<close>

theorem bytes_checksum_spec:
  assumes "locate f = Inr (lfa, r, hc, s)"
  shows "header_bytes_checksum f lfa s = uint (spec_bytes_checksum f s (min s (nat lfa)))
           \<and> (s = 0x80 \<or> min s (nat lfa) = s)"
proof -
  from locate_facts(9) [OF assms] have "s = 0x80 \<or> min s (nat lfa) = s" by auto
  with header_bytes_checksum_spec [OF assms] show ?thesis by simp
qed

theorem bytes_checksum_spec_witness:
  "locate file_good = Inr (0xB0, 0xA8, 0x35719999, 0x80)
     \<and> header_bytes_checksum file_good 0xB0 0x80
         = uint (spec_bytes_checksum file_good 0x80 (min 0x80 (nat 0xB0)))"
proof -
  have l: "locate file_good = Inr (0xB0, 0xA8, 0x35719999, 0x80)" by code_simp
  from bytes_checksum_spec [OF l] l show ?thesis by blast
qed

subsection \<open>The checksum over the entries\<close>

text \<open>
  Claim C3: in the entry loop of a decode, each entry adds to the accumulator the
  32-bit rotation to the left of its decoded id word by its decoded count modulo 32,
  and the sum is reduced modulo \<open>2 ^ 32\<close>: the accumulator the loop returns is the
  one the byte phase left, taken through these additions in 32-bit arithmetic.
\<close>

theorem entries_checksum_spec:
  assumes "locate f = Inr (lfa, r, hc, s)"
    and "parse_entries f hc (nat ((r - int s - 0x10) div 0x8)) (s + 0x10)
           (header_bytes_checksum f lfa s) [] = Inr (c', es)"
  shows "c' = uint (fold (spec_entry_step f hc (s + 0x10))
                     [0..<nat ((r - int s - 0x10) div 0x8)]
                     (word_of_int (header_bytes_checksum f lfa s)))"
proof -
  note lf = locate_facts [OF assms(1)]
  let ?c = "header_bytes_checksum f lfa s"
  have c: "0 \<le> ?c" "?c < 2 ^ 32"
    unfolding header_bytes_checksum_spec [OF assms(1)]
    using uint_bounded [of "spec_bytes_checksum f s (min s (nat lfa))"] by simp_all
  have "parse_entries f hc (entry_count r s) (s + 0x10) ?c [] =
       Inr (uint (fold (spec_entry_step f hc (s + 0x10)) [0..<entry_count r s] (word_of_int ?c)),
            fold (\<lambda>i. AList.update (tool_id f hc (s + 0x10) i) (spec_entry f hc (s + 0x10) i))
              [0..<entry_count r s] [])"
    by (rule parse_entries_ok [OF lf(6,7) entries_in_file [OF assms(1)] c])
  with assms(2) show ?thesis by (simp add: entry_count_def)
qed

theorem entries_checksum_spec_witness:
  "locate file_good = Inr (0xB0, 0xA8, 0x35719999, 0x80)
     \<and> parse_entries file_good 0x35719999 (nat ((0xA8 - int 0x80 - 0x10) div 0x8))
           (0x80 + 0x10) (header_bytes_checksum file_good 0xB0 0x80) []
         = Inr (0x35719999,
                [(0x5D, \<lparr>build_version = 0x1234, used_count = 7\<rparr>),
                 (1, \<lparr>build_version = 0, used_count = 10\<rparr>)])
     \<and> 0x35719999 = uint (fold (spec_entry_step file_good 0x35719999 (0x80 + 0x10))
                     [0..<nat ((0xA8 - int 0x80 - 0x10) div 0x8)]
                     (word_of_int (header_bytes_checksum file_good 0xB0 0x80)))"
proof -
  have l: "locate file_good = Inr (0xB0, 0xA8, 0x35719999, 0x80)" by code_simp
  have p: "parse_entries file_good 0x35719999 (nat ((0xA8 - int 0x80 - 0x10) div 0x8))
           (0x80 + 0x10) (header_bytes_checksum file_good 0xB0 0x80) []
         = Inr (0x35719999,
                [(0x5D, \<lparr>build_version = 0x1234, used_count = 7\<rparr>),
                 (1, \<lparr>build_version = 0, used_count = 10\<rparr>)])"
    by code_simp
  from entries_checksum_spec [OF l p] l p show ?thesis by blast
qed

subsection \<open>A checksum that does not match\<close>

text \<open>
  Claim C4: the comparison of the checksums raises nothing. The parse fails exactly
  when locating the header fails, with the same error; once the header is located the
  result is complete, the stored checksum is the word at \<open>rich_location + 4\<close>, and
  \<open>checksum_matches\<close> says whether the final accumulator equals it.
\<close>

theorem checksum_mismatch_no_error:
  "(parse fn f = Inl e \<longleftrightarrow> locate f = Inl e)
     \<and> (locate f = Inr (lfa, r, hc, s) \<longrightarrow>
          hc = dword_at f (nat r + 4)
            \<and> parse fn f =
                Inr \<lparr>filename = fn,
                     checksum_matches =
                       (uint (spec_checksum f hc s (min s (nat lfa)) (entry_count r s)) = hc),
                     entries = spec_entries f hc (s + 0x10) (entry_count r s)\<rparr>)"
  using parse_error [of fn f e] parse_eq [of f lfa r hc s fn]
    locate_facts(11) [of f lfa r hc s] by blast

theorem checksum_mismatch_no_error_witness:
  "locate file_rich_first = Inr (0x100, 0x40, 0, 0x48)
     \<and> parse ''a.exe'' file_rich_first
         = Inr \<lparr>filename = ''a.exe'', checksum_matches = False, entries = []\<rparr>
     \<and> uint (spec_checksum file_rich_first 0 0x48 (min 0x48 (nat 0x100)) (entry_count 0x40 0x48))
         \<noteq> 0"
proof -
  have l: "locate file_rich_first = Inr (0x100, 0x40, 0, 0x48)" by code_simp
  have p: "parse ''a.exe'' file_rich_first
         = Inr \<lparr>filename = ''a.exe'', checksum_matches = False, entries = []\<rparr>"
    by code_simp
  from checksum_mismatch_no_error [of "''a.exe''" file_rich_first _ "0x100" "0x40" 0 "0x48"] l
  have "parse ''a.exe'' file_rich_first =
      Inr \<lparr>filename = ''a.exe'',
           checksum_matches =
             (uint (spec_checksum file_rich_first 0 0x48 (min 0x48 (nat 0x100))
                (entry_count 0x40 0x48)) = 0),
           entries = spec_entries file_rich_first 0 (0x48 + 0x10) (entry_count 0x40 0x48)\<rparr>"
    by blast
  with p have "uint (spec_checksum file_rich_first 0 0x48 (min 0x48 (nat 0x100))
                (entry_count 0x40 0x48)) \<noteq> 0"
    by simp
  with l p show ?thesis by blast
qed

subsection \<open>The header start and the Rich magic\<close>

text \<open>
  Claim C9, as stated, fails: in \<open>file_rich_first\<close> Rich is at 0x40 and the scan
  finds the header start at 0x48, after it; the parse succeeds.
\<close>

theorem header_start_before_rich_counterexample:
  "locate file_rich_first = Inr (0x100, 0x40, 0, 0x48)
     \<and> parse ''a.exe'' file_rich_first
         = Inr \<lparr>filename = ''a.exe'', checksum_matches = False, entries = []\<rparr>
     \<and> \<not> (int 0x48 < 0x40)"
  by code_simp

text \<open>
  Claim C9, amended: for every input on which the parse succeeds with at least one
  entry, the header start lies strictly before the offset of Rich, which is at least
  0x18 bytes further.
\<close>

theorem header_start_before_rich:
  assumes "parse fn f = Inr res" and "locate f = Inr (lfa, r, hc, s)"
    and "entries res \<noteq> []"
  shows "int s < r \<and> int s + 0x18 \<le> r"
proof -
  from parse_eq [OF assms(2), of fn] assms(1)
  have "entries res = spec_entries f hc (s + 0x10) (entry_count r s)" by auto
  with assms(3) have "entry_count r s \<noteq> 0"
    by (cases "entry_count r s = 0") (simp_all add: spec_entries_def)
  then have "0 < (r - int s - 0x10) div 8" by (simp add: entry_count_def)
  then have "8 \<le> r - int s - 0x10" by presburger
  then show ?thesis by simp
qed

theorem header_start_before_rich_witness:
  "parse ''a.exe'' file_good
       = Inr \<lparr>filename = ''a.exe'', checksum_matches = True,
              entries = [(0x5D, \<lparr>build_version = 0x1234, used_count = 7\<rparr>),
                         (1, \<lparr>build_version = 0, used_count = 10\<rparr>)]\<rparr>
     \<and> locate file_good = Inr (0xB0, 0xA8, 0x35719999, 0x80)
     \<and> int 0x80 < 0xA8 \<and> int 0x80 + 0x18 \<le> 0xA8"
proof -
  have l: "locate file_good = Inr (0xB0, 0xA8, 0x35719999, 0x80)" by code_simp
  have p: "parse ''a.exe'' file_good
       = Inr \<lparr>filename = ''a.exe'', checksum_matches = True,
              entries = [(0x5D, \<lparr>build_version = 0x1234, used_count = 7\<rparr>),
                         (1, \<lparr>build_version = 0, used_count = 10\<rparr>)]\<rparr>"
    by code_simp
  from header_start_before_rich [OF p l] l p show ?thesis by simp
qed

subsection \<open>No room for an entry\<close>

text \<open>
  Claim C10: when Rich and a header start are located and fewer than 0x10 bytes lie
  between the header start and Rich, the parse does not fail: the entries mapping is
  empty and \<open>checksum_matches\<close> compares the accumulator of the byte phase alone with
  the stored checksum.
\<close>

theorem no_room_for_entries:
  assumes "locate f = Inr (lfa, r, hc, s)" and "r < int s + 0x10"
  shows "parse fn f =
           Inr \<lparr>filename = fn,
                checksum_matches = (header_bytes_checksum f lfa s = hc),
                entries = []\<rparr>"
proof -
  from assms(2) have "entry_count r s = 0" by (simp add: entry_count_def)
  then show ?thesis
    using parse_eq [OF assms(1), of fn]
    by (simp add: spec_checksum_def spec_entries_def header_bytes_checksum_spec [OF assms(1)])
qed

theorem no_room_for_entries_witness:
  "locate file_early_pe = Inr (0x48, 0x40, 0x1190, 0x80) \<and> (0x40::int) < int 0x80 + 0x10
     \<and> parse ''a.exe'' file_early_pe =
           Inr \<lparr>filename = ''a.exe'',
                checksum_matches = (header_bytes_checksum file_early_pe 0x48 0x80 = 0x1190),
                entries = []\<rparr>"
proof -
  have l: "locate file_early_pe = Inr (0x48, 0x40, 0x1190, 0x80)" by code_simp
  have c: "(0x40::int) < int 0x80 + 0x10" by simp
  from no_room_for_entries [OF l c] l c show ?thesis by blast
qed

subsection \<open>The entries\<close>

lemma spec_entries_Suc:
  "spec_entries f hc t (Suc n) =
     AList.update (tool_id f hc t n) (spec_entry f hc t n) (spec_entries f hc t n)"
  by (simp add: spec_entries_def)

lemma insertion_order_snoc:
  "insertion_order (ks @ [k]) =
     (if k \<in> set (insertion_order ks) then insertion_order ks else insertion_order ks @ [k])"
  by (simp add: insertion_order_def)

lemma spec_entries_keys:
  "map fst (spec_entries f hc t n) = insertion_order (map (tool_id f hc t) [0..<n])"
proof (induction n)
  case 0
  then show ?case by (simp add: spec_entries_def insertion_order_def)
next
  case (Suc n)
  then show ?case
    by (simp add: spec_entries_Suc update_keys insertion_order_snoc)
qed

lemma spec_entries_distinct: "distinct (map fst (spec_entries f hc t n))"
proof (induction n)
  case 0
  then show ?case by (simp add: spec_entries_def)
next
  case (Suc n)
  then show ?case by (simp add: spec_entries_Suc distinct_update)
qed

lemma spec_entries_last:
  "i < n \<Longrightarrow> \<forall>j. i < j \<and> j < n \<longrightarrow> tool_id f hc t j \<noteq> tool_id f hc t i \<Longrightarrow>
     map_of (spec_entries f hc t n) (tool_id f hc t i) = Some (spec_entry f hc t i)"
proof (induction n)
  case 0
  then show ?case by simp
next
  case (Suc n)
  show ?case
  proof (cases "i = n")
    case True
    then show ?thesis by (simp add: spec_entries_Suc update_conv')
  next
    case False
    with Suc.prems have i: "i < n" by simp
    with Suc.prems(2) have ne: "tool_id f hc t n \<noteq> tool_id f hc t i" by simp
    have "\<forall>j. i < j \<and> j < n \<longrightarrow> tool_id f hc t j \<noteq> tool_id f hc t i"
      using Suc.prems(2) by simp
    with i have "map_of (spec_entries f hc t n) (tool_id f hc t i) = Some (spec_entry f hc t i)"
      by (rule Suc.IH)
    with ne show ?thesis by (simp add: spec_entries_Suc update_conv')
  qed
qed

text \<open>
  Claim C2: on a successful decode with \<open>rich_location \<ge> header_start + 0x10\<close>
  the table is read from \<open>header_start + 0x10\<close> and holds
  \<open>(rich_location - header_start - 0x10) div 8\<close> entries of eight bytes, all of them
  before Rich; the entries mapping is the one built by storing, in file order, each
  entry's build version and count under its tool id. Its keys are the tool ids in the
  order of their first occurrence, and a tool id is mapped to the entry decoded last
  under it. The fields are the ones of \<open>tool_id\<close> and \<open>spec_entry\<close>: the first word
  XOR the stored checksum, shifted right by 16 or masked with 0xFFFF, and the second
  word XOR the stored checksum.
\<close>

theorem entries_decoded:
  assumes "parse fn f = Inr res" and "locate f = Inr (lfa, r, hc, s)"
    and "int s + 0x10 \<le> r"
  shows "int (entry_count r s) = (r - int s - 0x10) div 8
     \<and> s + 0x10 + 8 * entry_count r s \<le> nat r \<and> nat r \<le> length f
     \<and> entries res = spec_entries f hc (s + 0x10) (entry_count r s)
     \<and> map fst (entries res)
         = insertion_order (map (tool_id f hc (s + 0x10)) [0..<entry_count r s])
     \<and> (\<forall>i<entry_count r s.
           (\<forall>j. i < j \<and> j < entry_count r s
                 \<longrightarrow> tool_id f hc (s + 0x10) j \<noteq> tool_id f hc (s + 0x10) i)
           \<longrightarrow> map_of (entries res) (tool_id f hc (s + 0x10) i)
                 = Some (spec_entry f hc (s + 0x10) i))"
proof -
  note lf = locate_facts [OF assms(2)]
  from assms(3) have d: "0 \<le> (r - int s - 0x10) div 8" by simp
  then have n: "int (entry_count r s) = (r - int s - 0x10) div 8"
    by (simp add: entry_count_def)
  have "((r - int s - 0x10) div 8) * 8 \<le> r - int s - 0x10" by presburger
  with n have "int (s + 0x10 + 8 * entry_count r s) \<le> r" by simp
  then have b: "s + 0x10 + 8 * entry_count r s \<le> nat r" by linarith
  have l: "nat r \<le> length f" using lf(5) by simp
  from parse_eq [OF assms(2), of fn] assms(1)
  have e: "entries res = spec_entries f hc (s + 0x10) (entry_count r s)" by auto
  show ?thesis
    unfolding e using n b l
    by (simp add: spec_entries_keys spec_entries_last)
qed

theorem entries_decoded_witness:
  "parse ''a.exe'' file_good
       = Inr \<lparr>filename = ''a.exe'', checksum_matches = True,
              entries = [(0x5D, \<lparr>build_version = 0x1234, used_count = 7\<rparr>),
                         (1, \<lparr>build_version = 0, used_count = 10\<rparr>)]\<rparr>
     \<and> locate file_good = Inr (0xB0, 0xA8, 0x35719999, 0x80)
     \<and> int 0x80 + 0x10 \<le> 0xA8
     \<and> entry_count 0xA8 0x80 = 3
     \<and> spec_entries file_good 0x35719999 (0x80 + 0x10) (entry_count 0xA8 0x80)
         = [(0x5D, \<lparr>build_version = 0x1234, used_count = 7\<rparr>),
            (1, \<lparr>build_version = 0, used_count = 10\<rparr>)]
     \<and> map (tool_id file_good 0x35719999 (0x80 + 0x10)) [0..<3] = [0x5D, 1, 0x5D]"
proof -
  let ?res = "\<lparr>filename = ''a.exe'', checksum_matches = True,
              entries = [(0x5D, \<lparr>build_version = 0x1234, used_count = 7\<rparr>),
                         (1, \<lparr>build_version = 0, used_count = 10\<rparr>)]\<rparr>"
  have l: "locate file_good = Inr (0xB0, 0xA8, 0x35719999, 0x80)" by code_simp
  have p: "parse ''a.exe'' file_good = Inr ?res" by code_simp
  have c: "int 0x80 + 0x10 \<le> 0xA8" by simp
  have n: "entry_count 0xA8 0x80 = 3" by code_simp
  have t: "map (tool_id file_good 0x35719999 (0x80 + 0x10)) [0..<3] = [0x5D, 1, 0x5D]"
    by code_simp
  from entries_decoded [OF p l c]
  have "entries ?res = spec_entries file_good 0x35719999 (0x80 + 0x10) (entry_count 0xA8 0x80)"
    by blast
  then have "spec_entries file_good 0x35719999 (0x80 + 0x10) (entry_count 0xA8 0x80)
         = [(0x5D, \<lparr>build_version = 0x1234, used_count = 7\<rparr>),
            (1, \<lparr>build_version = 0, used_count = 10\<rparr>)]"
    by simp
  with l p c n t show ?thesis by blast
qed

subsection \<open>Where the header starts\<close>

text \<open>
  Claim C6, as stated, fails: the offsets offered to the scan are said to be the
  4-byte aligned ones from 0x40 strictly below \<open>lfa_new\<close>. In \<open>file_unaligned\<close>
  \<open>lfa_new\<close> is 0x46, Rich is at 0 with the stored checksum 0, the words at 0x80 and
  0x40 do not decode to DanS and the word at 0x44, an aligned offset below 0x46,
  does; the loop runs \<open>(0x46 - 0x40) // 4 = 1\<close> time, reads only the word at 0x40
  and the parse fails with \<open>InvalidHeaderError\<close>.
\<close>

theorem header_start_counterexample:
  "lfa_new_of file_unaligned = 0x46
     \<and> rich_at file_unaligned 0x46 0
     \<and> dword_at file_unaligned (0 + 4) = 0
     \<and> \<not> decodes_dans file_unaligned 0 0x80
     \<and> \<not> decodes_dans file_unaligned 0 0x40
     \<and> decodes_dans file_unaligned 0 0x44
     \<and> (0x44::nat) mod 4 = 0 \<and> (0x44::int) < 0x46
     \<and> locate file_unaligned = Inl InvalidHeaderError
     \<and> parse ''a.exe'' file_unaligned = Inl InvalidHeaderError"
  by code_simp

text \<open>
  Claim C6, amended: the header is located, with \<open>lfa_new\<close>, the offset of Rich,
  the stored checksum and the header start, exactly when the input has at least 0x84
  bytes, \<open>lfa_new\<close> is the little-endian 32-bit value at 0x3C masked to its low
  16 bits, Rich occurs first at that offset within the bytes below \<open>lfa_new\<close>, the
  stored checksum is the word after it and lies inside the input, and the header
  start is 0x80 if the word at 0x80 XOR the stored checksum is DanS, otherwise the
  first 4-byte aligned offset from 0x40 whose whole word lies below \<open>lfa_new\<close>
  and inside the input and decodes to DanS.
\<close>

theorem header_start_located:
  "locate f = Inr (lfa, r, hc, s) \<longleftrightarrow>
     0x84 \<le> length f \<and> lfa = lfa_new_of f
       \<and> 0 \<le> r \<and> rich_at f lfa (nat r)
       \<and> nat r + 8 \<le> length f \<and> hc = dword_at f (nat r + 4)
       \<and> (if decodes_dans f hc 0x80 then s = 0x80
          else scanned lfa s \<and> decodes_dans f hc s
                 \<and> \<not> (\<exists>q. q < s \<and> scanned lfa q \<and> decodes_dans f hc q))"
  unfolding lfa_new_of_def by (rule locate_Inr_iff)

theorem header_start_located_witness:
  "locate file_rich_first = Inr (0x100, 0x40, 0, 0x48)
     \<and> lfa_new_of file_rich_first = 0x100
     \<and> rich_at file_rich_first 0x100 (nat 0x40)
     \<and> \<not> decodes_dans file_rich_first 0 0x80
     \<and> scanned 0x100 0x48 \<and> decodes_dans file_rich_first 0 0x48
     \<and> scanned 0x100 0x40 \<and> \<not> decodes_dans file_rich_first 0 0x40
     \<and> scanned 0x100 0x44 \<and> \<not> decodes_dans file_rich_first 0 0x44"
proof -
  have l: "locate file_rich_first = Inr (0x100, 0x40, 0, 0x48)" by code_simp
  have n: "\<not> decodes_dans file_rich_first 0 0x80" by code_simp
  have s: "scanned 0x100 0x40" "scanned 0x100 0x44" by code_simp+
  note h = header_start_located [of file_rich_first "0x100" "0x40" 0 "0x48", THEN iffD1, OF l]
  from h have a: "0x100 = lfa_new_of file_rich_first" by (elim conjE)
  from h have b: "rich_at file_rich_first 0x100 (nat 0x40)" by (elim conjE)
  from h have "if decodes_dans file_rich_first 0 0x80 then (0x48::nat) = 0x80
          else scanned 0x100 0x48 \<and> decodes_dans file_rich_first 0 0x48
                 \<and> \<not> (\<exists>q. q < 0x48 \<and> scanned 0x100 q \<and> decodes_dans file_rich_first 0 q)"
    by (elim conjE)
  with n have c: "scanned 0x100 0x48" "decodes_dans file_rich_first 0 0x48"
    "\<not> (\<exists>q. q < 0x48 \<and> scanned 0x100 q \<and> decodes_dans file_rich_first 0 q)"
    by simp_all
  from c(3) s have d: "\<not> decodes_dans file_rich_first 0 0x40"
    "\<not> decodes_dans file_rich_first 0 0x44"
    by auto
  from l a b n c(1,2) s d show ?thesis by simp
qed

subsection \<open>The errors of the locating phase\<close>

lemma scan_zero_iff:
  "scan f hc [0..<nat ((lfa - 0x40) div 0x4)] = Inr 0 \<longleftrightarrow>
     \<not> (\<exists>off. scanned lfa off \<and> length f < off + 4)
       \<and> \<not> (\<exists>off. scanned lfa off \<and> decodes_dans f hc off)"
proof -
  define k where "k = nat ((lfa - 0x40) div 0x4)"
  have sc: "\<And>off. scanned lfa off \<longleftrightarrow> (\<exists>j. j < k \<and> off = 0x40 + 4 * j)"
    unfolding k_def by (rule scanned_iff)
  have a: "(0 < k \<longrightarrow> 0x40 + 4 * k \<le> length f)
             \<longleftrightarrow> \<not> (\<exists>off. scanned lfa off \<and> length f < off + 4)"
  proof
    assume h: "0 < k \<longrightarrow> 0x40 + 4 * k \<le> length f"
    show "\<not> (\<exists>off. scanned lfa off \<and> length f < off + 4)"
    proof
      assume "\<exists>off. scanned lfa off \<and> length f < off + 4"
      then obtain off j where j: "j < k" "off = 0x40 + 4 * j" "length f < off + 4"
        using sc by blast
      with h show False by simp
    qed
  next
    assume h: "\<not> (\<exists>off. scanned lfa off \<and> length f < off + 4)"
    show "0 < k \<longrightarrow> 0x40 + 4 * k \<le> length f"
    proof
      assume k: "0 < k"
      then have "k - 1 < k" by simp
      then have "scanned lfa (0x40 + 4 * (k - 1))" using sc by blast
      with h have "\<not> length f < 0x40 + 4 * (k - 1) + 4" by blast
      with k show "0x40 + 4 * k \<le> length f" by simp
    qed
  qed
  have b: "(\<forall>m. 0 \<le> m \<and> m < k \<longrightarrow> \<not> decodes_dans f hc (0x40 + 4 * m))
             \<longleftrightarrow> \<not> (\<exists>off. scanned lfa off \<and> decodes_dans f hc off)"
  proof
    assume h: "\<forall>m. 0 \<le> m \<and> m < k \<longrightarrow> \<not> decodes_dans f hc (0x40 + 4 * m)"
    show "\<not> (\<exists>off. scanned lfa off \<and> decodes_dans f hc off)"
    proof
      assume "\<exists>off. scanned lfa off \<and> decodes_dans f hc off"
      then obtain off j where "j < k" "off = 0x40 + 4 * j" "decodes_dans f hc off"
        using sc by blast
      with h show False by blast
    qed
  next
    assume h: "\<not> (\<exists>off. scanned lfa off \<and> decodes_dans f hc off)"
    show "\<forall>m. 0 \<le> m \<and> m < k \<longrightarrow> \<not> decodes_dans f hc (0x40 + 4 * m)"
    proof (intro allI impI)
      fix m assume "0 \<le> m \<and> m < k"
      then have "scanned lfa (0x40 + 4 * m)" using sc by blast
      with h show "\<not> decodes_dans f hc (0x40 + 4 * m)" by blast
    qed
  qed
  have "scan f hc [0..<k] = Inr 0 \<longleftrightarrow>
     (0 < k \<longrightarrow> 0x40 + 4 * k \<le> length f)
       \<and> (\<forall>m. 0 \<le> m \<and> m < k \<longrightarrow> \<not> decodes_dans f hc (0x40 + 4 * m))"
    by (rule scan_none)
  then have "scan f hc [0..<k] = Inr 0 \<longleftrightarrow>
     \<not> (\<exists>off. scanned lfa off \<and> length f < off + 4)
       \<and> \<not> (\<exists>off. scanned lfa off \<and> decodes_dans f hc off)"
    unfolding a b .
  then show ?thesis unfolding k_def .
qed

lemma scan_some_iff:
  "(\<exists>s. scan f hc [0..<nat ((lfa - 0x40) div 0x4)] = Inr s \<and> s \<noteq> 0) \<longleftrightarrow>
     (\<exists>off. scanned lfa off \<and> decodes_dans f hc off)"
proof
  assume "\<exists>s. scan f hc [0..<nat ((lfa - 0x40) div 0x4)] = Inr s \<and> s \<noteq> 0"
  then obtain s where "scan f hc [0..<nat ((lfa - 0x40) div 0x4)] = Inr s \<and> s \<noteq> 0" ..
  then have "scanned lfa s \<and> decodes_dans f hc s" unfolding scan_found_scanned by blast
  then show "\<exists>off. scanned lfa off \<and> decodes_dans f hc off" ..
next
  let ?P = "\<lambda>off. scanned lfa off \<and> decodes_dans f hc off"
  assume "\<exists>off. ?P off"
  then obtain s where s: "?P s" "\<forall>q. q < s \<longrightarrow> \<not> ?P q"
    using exists_least_iff [of ?P] by auto
  then have "scanned lfa s \<and> decodes_dans f hc s
       \<and> \<not> (\<exists>q. q < s \<and> scanned lfa q \<and> decodes_dans f hc q)"
    by blast
  then have "scan f hc [0..<nat ((lfa - 0x40) div 0x4)] = Inr s \<and> s \<noteq> 0"
    unfolding scan_found_scanned .
  then show "\<exists>s. scan f hc [0..<nat ((lfa - 0x40) div 0x4)] = Inr s \<and> s \<noteq> 0" ..
qed

lemma scan_short_iff:
  "(\<exists>e. scan f hc [0..<nat ((lfa - 0x40) div 0x4)] = Inl e) \<longleftrightarrow>
     (\<exists>off. scanned lfa off \<and> length f < off + 4)
       \<and> \<not> (\<exists>off. scanned lfa off \<and> decodes_dans f hc off)"
proof (cases "scan f hc [0..<nat ((lfa - 0x40) div 0x4)]")
  case (Inl e)
  then have "\<not> (\<exists>s. scan f hc [0..<nat ((lfa - 0x40) div 0x4)] = Inr s \<and> s \<noteq> 0)"
    by simp
  then have nd: "\<not> (\<exists>off. scanned lfa off \<and> decodes_dans f hc off)"
    unfolding scan_some_iff .
  from Inl have "scan f hc [0..<nat ((lfa - 0x40) div 0x4)] \<noteq> Inr 0" by simp
  then have "\<not> (\<not> (\<exists>off. scanned lfa off \<and> length f < off + 4)
       \<and> \<not> (\<exists>off. scanned lfa off \<and> decodes_dans f hc off))"
    unfolding scan_zero_iff .
  with nd have "\<exists>off. scanned lfa off \<and> length f < off + 4" by blast
  with nd Inl show ?thesis by blast
next
  case (Inr s)
  show ?thesis
  proof (cases "s = 0")
    case True
    with Inr have "scan f hc [0..<nat ((lfa - 0x40) div 0x4)] = Inr 0" by simp
    then have "\<not> (\<exists>off. scanned lfa off \<and> length f < off + 4)"
      unfolding scan_zero_iff by blast
    with Inr show ?thesis by simp
  next
    case False
    with Inr have "\<exists>s. scan f hc [0..<nat ((lfa - 0x40) div 0x4)] = Inr s \<and> s \<noteq> 0"
      by blast
    then have "\<exists>off. scanned lfa off \<and> decodes_dans f hc off"
      unfolding scan_some_iff .
    with Inr show ?thesis by simp
  qed
qed

lemma rich_at_exists:
  assumes "\<exists>i. occurs_at rich_magic (take (nat lfa) f) i"
  shows "\<exists>r. rich_at f lfa r"
proof -
  let ?P = "occurs_at rich_magic (take (nat lfa) f)"
  from assms obtain r where "?P r" "\<forall>j<r. \<not> ?P j"
    using exists_least_iff [of ?P] by auto
  then have "rich_at f lfa r" by (simp add: rich_at_def)
  then show ?thesis ..
qed

lemma locate_rich_unfold:
  assumes "0x40 \<le> length f" and "rich_at f (lfa_new_of f) r"
  shows "locate f =
     (if length f < r + 8 then Inl StructError
      else if length f < 0x84 then Inl StructError
      else if decodes_dans f (dword_at f (r + 4)) 0x80
        then Inr (lfa_new_of f, int r, dword_at f (r + 4), 0x80)
      else (case scan f (dword_at f (r + 4)) [0..<nat ((lfa_new_of f - 0x40) div 0x4)] of
              Inl e \<Rightarrow> Inl StructError
            | Inr s \<Rightarrow> if s = 0 then Inl InvalidHeaderError
                       else Inr (lfa_new_of f, int r, dword_at f (r + 4), s)))"
proof -
  from assms(2) have "0 \<le> int r \<and> rich_at f (lfa_new_of f) (nat (int r))" by simp
  then have fb: "find_bytes (file_read f 0 (nat (lfa_new_of f))) rich_magic = int r"
    and ne: "int r \<noteq> - 1"
    unfolding rich_at_find [symmetric] by simp_all
  have n: "nat (int r + 4) = r + 4" by simp
  have l: "\<not> length f < 0x40" using assms(1) by simp
  have "locate f =
     (if length f < nat (int r + 4) + 4 then Inl StructError
      else if length f < 0x84 then Inl StructError
      else if decodes_dans f (dword_at f (nat (int r + 4))) 0x80
        then Inr (lfa_new_of f, int r, dword_at f (nat (int r + 4)), 0x80)
      else (case scan f (dword_at f (nat (int r + 4)))
                   [0..<nat ((lfa_new_of f - 0x40) div 0x4)] of
              Inl e \<Rightarrow> Inl StructError
            | Inr s \<Rightarrow> if s = 0 then Inl InvalidHeaderError
                       else Inr (lfa_new_of f, int r, dword_at f (nat (int r + 4)), s)))"
    unfolding locate_unfold Let_def lfa_new_of_def [symmetric] fb
    using l ne by simp
  then show ?thesis unfolding n by (simp add: add.assoc)
qed

lemma locate_no_rich:
  assumes "0x40 \<le> length f"
    and "\<not> (\<exists>i. occurs_at rich_magic (take (nat (lfa_new_of f)) f) i)"
  shows "locate f = Inl InvalidHeaderError"
proof -
  from assms(2) have "find_bytes (file_read f 0 (nat (lfa_new_of f))) rich_magic = - 1"
    by (simp add: find_bytes_none file_read_def)
  with assms(1) show ?thesis
    unfolding locate_unfold Let_def lfa_new_of_def [symmetric] by simp
qed

lemma locate_short: "length f < 0x40 \<Longrightarrow> locate f = Inl StructError"
  by (simp add: locate_unfold)

lemma candidate_short_iff:
  "(\<exists>off. candidate lfa off \<and> length f < off + 4) \<longleftrightarrow>
     length f < 0x84 \<or> (\<exists>off. scanned lfa off \<and> length f < off + 4)"
  unfolding candidate_def by auto

lemma candidate_decodes_iff:
  "(\<exists>off. candidate lfa off \<and> decodes_dans f hc off) \<longleftrightarrow>
     decodes_dans f hc 0x80 \<or> (\<exists>off. scanned lfa off \<and> decodes_dans f hc off)"
  unfolding candidate_def by auto

lemma locate_rich_error:
  assumes "0x40 \<le> length f" and "rich_at f (lfa_new_of f) r"
  shows "locate f = Inl InvalidHeaderError \<longleftrightarrow>
           r + 8 \<le> length f
             \<and> \<not> (\<exists>off. candidate (lfa_new_of f) off \<and> length f < off + 4)
             \<and> \<not> (\<exists>off. candidate (lfa_new_of f) off
                     \<and> decodes_dans f (dword_at f (r + 4)) off)"
    and "locate f = Inl StructError \<longleftrightarrow>
           length f < r + 8 \<or> length f < 0x84
             \<or> (\<exists>off. scanned (lfa_new_of f) off \<and> length f < off + 4)
                 \<and> \<not> (\<exists>off. candidate (lfa_new_of f) off
                         \<and> decodes_dans f (dword_at f (r + 4)) off)"
proof -
  let ?lfa = "lfa_new_of f"
  let ?hc = "dword_at f (r + 4)"
  let ?scan = "scan f ?hc [0..<nat ((?lfa - 0x40) div 0x4)]"
  let ?short = "\<exists>off. scanned ?lfa off \<and> length f < off + 4"
  let ?dec = "\<exists>off. scanned ?lfa off \<and> decodes_dans f ?hc off"
  note u = locate_rich_unfold [OF assms]
  consider (a) "length f < r + 8"
    | (b) "\<not> length f < r + 8" "length f < 0x84"
    | (c) "\<not> length f < r + 8" "\<not> length f < 0x84" "decodes_dans f ?hc 0x80"
    | (d) "\<not> length f < r + 8" "\<not> length f < 0x84" "\<not> decodes_dans f ?hc 0x80"
          "\<exists>e. ?scan = Inl e"
    | (e) "\<not> length f < r + 8" "\<not> length f < 0x84" "\<not> decodes_dans f ?hc 0x80"
          "?scan = Inr 0"
    | (g) "\<not> length f < r + 8" "\<not> length f < 0x84" "\<not> decodes_dans f ?hc 0x80"
          "\<exists>s. ?scan = Inr s \<and> s \<noteq> 0"
    by (cases ?scan) auto
  then have "(locate f = Inl InvalidHeaderError \<longleftrightarrow>
           r + 8 \<le> length f
             \<and> \<not> (length f < 0x84 \<or> ?short)
             \<and> \<not> (decodes_dans f ?hc 0x80 \<or> ?dec))
     \<and> (locate f = Inl StructError \<longleftrightarrow>
           length f < r + 8 \<or> length f < 0x84
             \<or> ?short \<and> \<not> (decodes_dans f ?hc 0x80 \<or> ?dec))"
  proof cases
    case a
    then have "locate f = Inl StructError" using u by simp
    with a show ?thesis by simp
  next
    case b
    then have "locate f = Inl StructError" using u by simp
    with b show ?thesis by simp
  next
    case c
    then have "locate f = Inr (?lfa, int r, ?hc, 0x80)" using u by simp
    with c show ?thesis by simp
  next
    case d
    then obtain e' where e': "?scan = Inl e'" by blast
    with d have l: "locate f = Inl StructError" using u by simp
    from d(4) have "?short \<and> \<not> ?dec" unfolding scan_short_iff .
    with l d show ?thesis by simp
  next
    case e
    then have l: "locate f = Inl InvalidHeaderError" using u by simp
    from e(4) have "\<not> ?short \<and> \<not> ?dec" unfolding scan_zero_iff .
    with l e show ?thesis by simp
  next
    case g
    then obtain s where s: "?scan = Inr s" "s \<noteq> 0" by blast
    with g have l: "locate f = Inr (?lfa, int r, ?hc, s)" using u by simp
    from g(4) have "?dec" unfolding scan_some_iff .
    with l g show ?thesis by simp
  qed
  then show "locate f = Inl InvalidHeaderError \<longleftrightarrow>
           r + 8 \<le> length f
             \<and> \<not> (\<exists>off. candidate (lfa_new_of f) off \<and> length f < off + 4)
             \<and> \<not> (\<exists>off. candidate (lfa_new_of f) off
                     \<and> decodes_dans f (dword_at f (r + 4)) off)"
    and "locate f = Inl StructError \<longleftrightarrow>
           length f < r + 8 \<or> length f < 0x84
             \<or> (\<exists>off. scanned (lfa_new_of f) off \<and> length f < off + 4)
                 \<and> \<not> (\<exists>off. candidate (lfa_new_of f) off
                         \<and> decodes_dans f (dword_at f (r + 4)) off)"
    unfolding candidate_short_iff candidate_decodes_iff by blast+
qed

lemma rich_at_ex_iff:
  assumes "rich_at f lfa r"
  shows "(\<exists>r'. rich_at f lfa r' \<and> Q r') \<longleftrightarrow> Q r"
proof
  assume "\<exists>r'. rich_at f lfa r' \<and> Q r'"
  then obtain r' where r': "rich_at f lfa r'" "Q r'" by blast
  from r'(1) assms have "r' = r" by (rule rich_at_unique)
  with r'(2) show "Q r" by simp
next
  assume "Q r"
  with assms show "\<exists>r'. rich_at f lfa r' \<and> Q r'" by blast
qed

lemma rich_at_occurs: "rich_at f lfa r \<Longrightarrow> \<exists>i. occurs_at rich_magic (take (nat lfa) f) i"
  unfolding rich_at_def by blast

lemma locate_invalid_iff:
  "locate f = Inl InvalidHeaderError \<longleftrightarrow>
     0x40 \<le> length f
       \<and> (\<not> (\<exists>i. occurs_at rich_magic (take (nat (lfa_new_of f)) f) i)
          \<or> (\<exists>r. rich_at f (lfa_new_of f) r
                 \<and> r + 8 \<le> length f
                 \<and> \<not> (\<exists>off. candidate (lfa_new_of f) off \<and> length f < off + 4)
                 \<and> \<not> (\<exists>off. candidate (lfa_new_of f) off
                         \<and> decodes_dans f (dword_at f (r + 4)) off)))"
proof (cases "length f < 0x40")
  case True
  then show ?thesis by (simp add: locate_short)
next
  case False
  then have len: "0x40 \<le> length f" by simp
  show ?thesis
  proof (cases "\<exists>i. occurs_at rich_magic (take (nat (lfa_new_of f)) f) i")
    case False
    with len have "locate f = Inl InvalidHeaderError" by (rule locate_no_rich)
    with len False show ?thesis by blast
  next
    case True
    then obtain r where r: "rich_at f (lfa_new_of f) r" using rich_at_exists by blast
    note e = locate_rich_error(1) [OF len r]
    note x = rich_at_ex_iff [OF r, of "\<lambda>r. r + 8 \<le> length f
                 \<and> \<not> (\<exists>off. candidate (lfa_new_of f) off \<and> length f < off + 4)
                 \<and> \<not> (\<exists>off. candidate (lfa_new_of f) off
                         \<and> decodes_dans f (dword_at f (r + 4)) off)"]
    show ?thesis unfolding x e using len True by blast
  qed
qed

lemma locate_struct_iff:
  "locate f = Inl StructError \<longleftrightarrow>
     length f < 0x40
       \<or> (\<exists>r. rich_at f (lfa_new_of f) r
              \<and> (length f < r + 8 \<or> length f < 0x84
                  \<or> (\<exists>off. scanned (lfa_new_of f) off \<and> length f < off + 4)
                      \<and> \<not> (\<exists>off. candidate (lfa_new_of f) off
                              \<and> decodes_dans f (dword_at f (r + 4)) off)))"
proof (cases "length f < 0x40")
  case True
  then show ?thesis by (simp add: locate_short)
next
  case False
  then have len: "0x40 \<le> length f" by simp
  show ?thesis
  proof (cases "\<exists>i. occurs_at rich_magic (take (nat (lfa_new_of f)) f) i")
    case no: False
    with len have "locate f = Inl InvalidHeaderError" by (rule locate_no_rich)
    moreover have "\<not> (\<exists>r. rich_at f (lfa_new_of f) r)"
      using no rich_at_occurs by blast
    ultimately show ?thesis using False by auto
  next
    case True
    then obtain r where r: "rich_at f (lfa_new_of f) r" using rich_at_exists by blast
    note e = locate_rich_error(2) [OF len r]
    note x = rich_at_ex_iff [OF r, of "\<lambda>r. length f < r + 8 \<or> length f < 0x84
                  \<or> (\<exists>off. scanned (lfa_new_of f) off \<and> length f < off + 4)
                      \<and> \<not> (\<exists>off. candidate (lfa_new_of f) off
                              \<and> decodes_dans f (dword_at f (r + 4)) off)"]
    show ?thesis unfolding x e using False by blast
  qed
qed

subsection \<open>No header\<close>

text \<open>
  Claim C5, as stated, fails in the direction from the condition to the error: in
  \<open>file_short\<close>, of 0x48 bytes, Rich is found at 0x40 below \<open>lfa_new = 0x48\<close>, the
  stored checksum is 0, and none of the candidate offsets 0x80, 0x40 and 0x44 decodes
  to DanS; the read at 0x80 is past the end of the file and the parse fails with
  \<open>struct.error\<close>, not with \<open>InvalidHeaderError\<close>.
\<close>

theorem header_not_found_counterexample:
  "lfa_new_of file_short = 0x48
     \<and> rich_at file_short 0x48 0x40
     \<and> dword_at file_short (0x40 + 4) = 0
     \<and> \<not> decodes_dans file_short 0 0x80
     \<and> \<not> decodes_dans file_short 0 0x40
     \<and> \<not> decodes_dans file_short 0 0x44
     \<and> parse ''a.exe'' file_short = Inl StructError
     \<and> parse ''a.exe'' file_short \<noteq> Inl InvalidHeaderError"
  by code_simp

text \<open>
  Claim C5, amended: \<open>InvalidHeaderError\<close> is an error distinct from
  \<open>struct.error\<close>, and the parse fails with it if and only if the input has at
  least 0x40 bytes and either Rich does not occur in the bytes below \<open>lfa_new\<close>, or
  Rich is found, the checksum word after it and the word at every candidate offset
  (the default 0x80 and the scanned ones: 4-byte aligned, from 0x40, the whole word
  below \<open>lfa_new\<close>) lie inside the input, and no candidate offset XOR-decodes with
  the stored checksum to DanS.
\<close>

theorem header_not_found_iff:
  "InvalidHeaderError \<noteq> StructError
     \<and> (parse fn f = Inl InvalidHeaderError \<longleftrightarrow>
          0x40 \<le> length f
            \<and> (\<not> (\<exists>i. occurs_at rich_magic (take (nat (lfa_new_of f)) f) i)
               \<or> (\<exists>r. rich_at f (lfa_new_of f) r
                      \<and> r + 8 \<le> length f
                      \<and> \<not> (\<exists>off. candidate (lfa_new_of f) off \<and> length f < off + 4)
                      \<and> \<not> (\<exists>off. candidate (lfa_new_of f) off
                              \<and> decodes_dans f (dword_at f (r + 4)) off))))"
  unfolding parse_error locate_invalid_iff by simp

theorem header_not_found_iff_witness:
  "length (replicate 0x40 (0::byte)) = 0x40
     \<and> lfa_new_of (replicate 0x40 0) = 0
     \<and> parse ''a.exe'' (replicate 0x40 0) = Inl InvalidHeaderError
     \<and> parse ''a.exe'' file_unaligned = Inl InvalidHeaderError
     \<and> rich_at file_unaligned (lfa_new_of file_unaligned) 0
     \<and> 0 + 8 \<le> length file_unaligned
     \<and> candidate (lfa_new_of file_unaligned) 0x80
     \<and> 0x80 + 4 \<le> length file_unaligned
     \<and> \<not> decodes_dans file_unaligned (dword_at file_unaligned (0 + 4)) 0x80
     \<and> candidate (lfa_new_of file_unaligned) 0x40
     \<and> 0x40 + 4 \<le> length file_unaligned
     \<and> \<not> decodes_dans file_unaligned (dword_at file_unaligned (0 + 4)) 0x40"
proof -
  let ?z = "replicate 0x40 (0::byte)"
  have zl: "length ?z = 0x40" by simp
  have zf: "lfa_new_of ?z = 0" by code_simp
  have "\<not> (\<exists>i. occurs_at rich_magic (take (nat (lfa_new_of ?z)) ?z) i)"
    unfolding zf by (simp add: occurs_at_Nil rich_magic_def)
  with zl header_not_found_iff [of "''a.exe''" ?z]
  have zp: "parse ''a.exe'' ?z = Inl InvalidHeaderError" by simp
  have p: "parse ''a.exe'' file_unaligned = Inl InvalidHeaderError" by code_simp
  have o: "occurs_at rich_magic (take (nat (lfa_new_of file_unaligned)) file_unaligned) 0"
    by code_simp
  have ra: "rich_at file_unaligned (lfa_new_of file_unaligned) 0" by code_simp
  have c: "candidate (lfa_new_of file_unaligned) 0x80"
    "candidate (lfa_new_of file_unaligned) 0x40" by code_simp+
  from header_not_found_iff [of "''a.exe''" file_unaligned] p o
  obtain r where r: "rich_at file_unaligned (lfa_new_of file_unaligned) r"
    "r + 8 \<le> length file_unaligned"
    "\<not> (\<exists>off. candidate (lfa_new_of file_unaligned) off \<and> length file_unaligned < off + 4)"
    "\<not> (\<exists>off. candidate (lfa_new_of file_unaligned) off
          \<and> decodes_dans file_unaligned (dword_at file_unaligned (r + 4)) off)"
    by blast
  from r(1) ra have r0: "r = 0" by (rule rich_at_unique)
  from r(2) r0 have l: "0 + 8 \<le> length file_unaligned" by simp
  from r(3) c have s: "0x80 + 4 \<le> length file_unaligned" "0x40 + 4 \<le> length file_unaligned"
    by (meson not_le_imp_less)+
  from r(4) r0 c have d: "\<not> decodes_dans file_unaligned (dword_at file_unaligned (0 + 4)) 0x80"
    "\<not> decodes_dans file_unaligned (dword_at file_unaligned (0 + 4)) 0x40"
    by blast+
  from zl zf zp p ra l c s d show ?thesis by blast
qed

subsection \<open>Input cut short\<close>

text \<open>
  Claim C7, as stated, fails: \<open>file_good\<close> cut after 0xA0 bytes ends inside its
  entry table, whose three entries run from 0x90 to 0xA8, so the input holds less
  data than the entry count of its header asks for. Rich is lost with the cut: the
  parse fails with \<open>InvalidHeaderError\<close>, not with \<open>struct.error\<close>.
\<close>

theorem truncated_input_counterexample:
  "locate file_good = Inr (0xB0, 0xA8, 0x35719999, 0x80)
     \<and> entry_count 0xA8 0x80 = 3
     \<and> length (take 0xA0 file_good) = 0xA0
     \<and> 0x80 + 0x10 \<le> length (take 0xA0 file_good)
     \<and> length (take 0xA0 file_good) < 0x80 + 0x10 + 8 * entry_count 0xA8 0x80
     \<and> lfa_new_of (take 0xA0 file_good) = 0xB0
     \<and> decodes_dans (take 0xA0 file_good) 0x35719999 0x80
     \<and> parse ''a.exe'' (take 0xA0 file_good) = Inl InvalidHeaderError
     \<and> parse ''a.exe'' (take 0xA0 file_good) \<noteq> Inl StructError"
  by code_simp

text \<open>
  Claim C7, amended: \<open>struct.error\<close> is an error distinct from
  \<open>InvalidHeaderError\<close>; the parse fails with it whenever the input has fewer than
  0x40 bytes, and otherwise exactly when Rich is found in the bytes below \<open>lfa_new\<close>
  and a read made to locate the header runs past the end of the input: the checksum
  word after Rich, the word at 0x80, or a scanned word when no candidate offset
  decodes to DanS. No read of the checksum and entry phases runs past the end: once
  the header is located, the entry table that the count implies ends inside the
  input and the parse succeeds.
\<close>

theorem truncated_input:
  "StructError \<noteq> InvalidHeaderError
     \<and> (length f < 0x40 \<longrightarrow> parse fn f = Inl StructError)
     \<and> (parse fn f = Inl StructError \<longleftrightarrow>
          length f < 0x40
            \<or> (\<exists>r. rich_at f (lfa_new_of f) r
                   \<and> (length f < r + 8 \<or> length f < 0x84
                       \<or> (\<exists>off. scanned (lfa_new_of f) off \<and> length f < off + 4)
                           \<and> \<not> (\<exists>off. candidate (lfa_new_of f) off
                                   \<and> decodes_dans f (dword_at f (r + 4)) off))))
     \<and> (locate f = Inr (lfa, r, hc, s) \<longrightarrow>
          (entry_count r s = 0 \<or> s + 0x10 + 8 * entry_count r s \<le> length f)
            \<and> (\<exists>res. parse fn f = Inr res))"
proof -
  have 1: "length f < 0x40 \<longrightarrow> parse fn f = Inl StructError"
    by (simp add: parse_error locate_short)
  have 2: "parse fn f = Inl StructError \<longleftrightarrow>
          length f < 0x40
            \<or> (\<exists>r. rich_at f (lfa_new_of f) r
                   \<and> (length f < r + 8 \<or> length f < 0x84
                       \<or> (\<exists>off. scanned (lfa_new_of f) off \<and> length f < off + 4)
                           \<and> \<not> (\<exists>off. candidate (lfa_new_of f) off
                                   \<and> decodes_dans f (dword_at f (r + 4)) off)))"
    unfolding parse_error by (rule locate_struct_iff)
  have 3: "locate f = Inr (lfa, r, hc, s) \<longrightarrow>
          (entry_count r s = 0 \<or> s + 0x10 + 8 * entry_count r s \<le> length f)
            \<and> (\<exists>res. parse fn f = Inr res)"
    using entries_in_file [of f lfa r hc s] parse_eq [of f lfa r hc s fn] by simp
  from 1 2 3 show ?thesis by simp
qed

theorem truncated_input_witness:
  "length (replicate 0x3F (0::byte)) < 0x40
     \<and> parse ''a.exe'' (replicate 0x3F 0) = Inl StructError
     \<and> rich_at file_short (lfa_new_of file_short) 0x40
     \<and> length file_short < 0x84
     \<and> parse ''a.exe'' file_short = Inl StructError
     \<and> locate file_good = Inr (0xB0, 0xA8, 0x35719999, 0x80)
     \<and> entry_count 0xA8 0x80 = 3
     \<and> 0x80 + 0x10 + 8 * entry_count 0xA8 0x80 \<le> length file_good
     \<and> parse ''a.exe'' file_good \<noteq> Inl StructError"
proof -
  have a: "length (replicate 0x3F (0::byte)) < 0x40" by simp
  with truncated_input [of "replicate 0x3F 0" "''a.exe''"]
  have ap: "parse ''a.exe'' (replicate 0x3F 0) = Inl StructError" by blast
  have b: "rich_at file_short (lfa_new_of file_short) 0x40" by code_simp
  have bl: "length file_short < 0x84" by code_simp
  from b bl truncated_input [of file_short "''a.exe''"]
  have bp: "parse ''a.exe'' file_short = Inl StructError" by blast
  have l: "locate file_good = Inr (0xB0, 0xA8, 0x35719999, 0x80)" by code_simp
  have n: "entry_count 0xA8 0x80 = 3" by code_simp
  from l truncated_input [of file_good "''a.exe''" "0xB0" "0xA8" "0x35719999" "0x80"]
  have g: "(entry_count 0xA8 0x80 = 0 \<or> 0x80 + 0x10 + 8 * entry_count 0xA8 0x80 \<le> length file_good)
            \<and> (\<exists>res. parse ''a.exe'' file_good = Inr res)"
    by blast
  with n have gt: "0x80 + 0x10 + 8 * entry_count 0xA8 0x80 \<le> length file_good" by simp
  from g have gp: "parse ''a.exe'' file_good \<noteq> Inl StructError" by auto
  from a ap b bl bp l n gt gp show ?thesis by blast
qed

subsection \<open>Comparison\<close>

lemma header_eq_iff:
  "header_eq a b \<longleftrightarrow>
     length (entries a) = length (entries b)
       \<and> (\<forall>k v. (k, v) \<in> set (entries a) \<longrightarrow> map_of (entries b) k = Some v)
       \<and> checksum_matches a = checksum_matches b"
  by (auto simp: header_eq_def list_all_iff)

lemma header_eq_set:
  assumes "distinct (map fst (entries a))" "distinct (map fst (entries b))"
  shows "header_eq a b \<longleftrightarrow>
     set (entries a) = set (entries b) \<and> checksum_matches a = checksum_matches b"
proof -
  have da: "distinct (entries a)" and db: "distinct (entries b)"
    using assms by (simp_all add: distinct_map)
  have "length (entries a) = length (entries b)
          \<and> (\<forall>k v. (k, v) \<in> set (entries a) \<longrightarrow> map_of (entries b) k = Some v)
        \<longleftrightarrow> set (entries a) = set (entries b)"
  proof
    assume h: "length (entries a) = length (entries b)
          \<and> (\<forall>k v. (k, v) \<in> set (entries a) \<longrightarrow> map_of (entries b) k = Some v)"
    then have sub: "set (entries a) \<subseteq> set (entries b)"
      using assms(2) by auto
    have "card (set (entries a)) = card (set (entries b))"
      using h da db by (simp add: distinct_card)
    with sub show "set (entries a) = set (entries b)"
      by (simp add: card_subset_eq)
  next
    assume h: "set (entries a) = set (entries b)"
    then have "card (set (entries a)) = card (set (entries b))" by simp
    then have "length (entries a) = length (entries b)"
      using da db by (simp add: distinct_card)
    with h assms(2) show "length (entries a) = length (entries b)
          \<and> (\<forall>k v. (k, v) \<in> set (entries a) \<longrightarrow> map_of (entries b) k = Some v)"
      by simp
  qed
  then show ?thesis unfolding header_eq_iff by blast
qed

lemma parse_entries_distinct: "parse fn f = Inr res \<Longrightarrow> distinct (map fst (entries res))"
proof -
  assume p: "parse fn f = Inr res"
  then obtain t where "locate f = Inr t"
    by (cases "locate f") (simp_all add: parse_def)
  then obtain lfa r hc s where l: "locate f = Inr (lfa, r, hc, s)"
    by (metis prod_cases4)
  from parse_eq [OF l, of fn] p
  have "entries res = spec_entries f hc (s + 0x10) (entry_count r s)" by auto
  then show ?thesis by (simp add: spec_entries_distinct)
qed

text \<open>
  Claim C8: the entries of a parser object are a dictionary, so its keys are
  distinct (as they are in every result of a parse, by \<open>parse_entries_distinct\<close>).
  Two such objects compare equal if and only if they have the same number of
  entries, every tool id of the first is in the second with the same build version
  and count, and their \<open>checksum_matches\<close> agree; this is the same as holding the
  same set of pairs, whatever the insertion order, and the same \<open>checksum_matches\<close>.
  Two objects that hold different counts under one tool id are not equal.
\<close>

theorem header_eq_spec:
  assumes "distinct (map fst (entries a))" "distinct (map fst (entries b))"
  shows "(header_eq a b \<longleftrightarrow>
            length (entries a) = length (entries b)
              \<and> (\<forall>k v. map_of (entries a) k = Some v \<longrightarrow> map_of (entries b) k = Some v)
              \<and> checksum_matches a = checksum_matches b)
     \<and> (header_eq a b \<longleftrightarrow>
            set (entries a) = set (entries b) \<and> checksum_matches a = checksum_matches b)
     \<and> (header_eq a b \<longleftrightarrow>
            map_of (entries a) = map_of (entries b)
              \<and> checksum_matches a = checksum_matches b)
     \<and> (map_of (entries a) k = Some v \<and> map_of (entries b) k = Some v'
           \<and> used_count v \<noteq> used_count v' \<longrightarrow> \<not> header_eq a b)"
proof -
  have ma: "\<And>k v. map_of (entries a) k = Some v \<longleftrightarrow> (k, v) \<in> set (entries a)"
    using assms(1) by simp
  have mb: "\<And>k v. map_of (entries b) k = Some v \<longleftrightarrow> (k, v) \<in> set (entries b)"
    using assms(2) by simp
  have s: "set (entries a) = set (entries b) \<longleftrightarrow> map_of (entries a) = map_of (entries b)"
  proof
    assume "set (entries a) = set (entries b)"
    then show "map_of (entries a) = map_of (entries b)"
      using assms by (intro map_of_inject_set [THEN iffD2]) simp_all
  next
    assume "map_of (entries a) = map_of (entries b)"
    then show "set (entries a) = set (entries b)"
      using assms by (simp add: map_of_inject_set)
  qed
  have 1: "header_eq a b \<longleftrightarrow>
            length (entries a) = length (entries b)
              \<and> (\<forall>k v. map_of (entries a) k = Some v \<longrightarrow> map_of (entries b) k = Some v)
              \<and> checksum_matches a = checksum_matches b"
    unfolding header_eq_iff ma ..
  have 2: "header_eq a b \<longleftrightarrow>
            set (entries a) = set (entries b) \<and> checksum_matches a = checksum_matches b"
    by (rule header_eq_set [OF assms])
  have 3: "header_eq a b \<longleftrightarrow>
            map_of (entries a) = map_of (entries b)
              \<and> checksum_matches a = checksum_matches b"
    unfolding 2 s ..
  have 4: "map_of (entries a) k = Some v \<and> map_of (entries b) k = Some v'
           \<and> used_count v \<noteq> used_count v' \<longrightarrow> \<not> header_eq a b"
    unfolding 3 by auto
  from 1 2 3 4 show ?thesis by blast
qed

theorem header_eq_spec_witness:
  "distinct (map fst [(0x5D::int, \<lparr>build_version = 0x1234, used_count = 7\<rparr>),
                      (1, \<lparr>build_version = 0, used_count = 10\<rparr>)])
     \<and> distinct (map fst [(1::int, \<lparr>build_version = 0, used_count = 10\<rparr>),
                          (0x5D, \<lparr>build_version = 0x1234, used_count = 7\<rparr>)])
     \<and> header_eq
          \<lparr>filename = ''a.exe'', checksum_matches = True,
           entries = [(0x5D, \<lparr>build_version = 0x1234, used_count = 7\<rparr>),
                      (1, \<lparr>build_version = 0, used_count = 10\<rparr>)]\<rparr>
          \<lparr>filename = ''b.exe'', checksum_matches = True,
           entries = [(1, \<lparr>build_version = 0, used_count = 10\<rparr>),
                      (0x5D, \<lparr>build_version = 0x1234, used_count = 7\<rparr>)]\<rparr>"
proof -
  let ?a = "\<lparr>filename = ''a.exe'', checksum_matches = True,
           entries = [(0x5D, \<lparr>build_version = 0x1234, used_count = 7\<rparr>),
                      (1, \<lparr>build_version = 0, used_count = 10\<rparr>)]\<rparr>"
  let ?b = "\<lparr>filename = ''b.exe'', checksum_matches = True,
           entries = [(1, \<lparr>build_version = 0, used_count = 10\<rparr>),
                      (0x5D, \<lparr>build_version = 0x1234, used_count = 7\<rparr>)]\<rparr>"
  have da: "distinct (map fst (entries ?a))" by simp
  have db: "distinct (map fst (entries ?b))" by simp
  have "set (entries ?a) = set (entries ?b) \<and> checksum_matches ?a = checksum_matches ?b"
    by auto
  with header_eq_spec [OF da db] have "header_eq ?a ?b" by blast
  with da db show ?thesis by simp
qed

end
